theory Spec2Isabelle
  imports Main "HOL-Library.AList"
begin

unbundle bit_operations_syntax

section \<open>Data model\<close>

text \<open>
  A Python \<open>str\<close> is a sequence of Unicode code points, and \<open>len\<close> counts code points.
  It is modelled as a list of natural numbers; a code point of Python is below
  \<open>0x110000\<close> (\<open>wf_str\<close>). Literals of the notebook are ASCII and are written as
  Isabelle strings, converted by \<open>ascii\<close>.

  Single characters are written by their code: 9 tab, 10 line feed, 13 carriage return,
  32 blank, 34 double quote, 44 comma, 45 minus, 46 full stop, 47 slash, 58 colon,
  91 and 93 the square brackets, 92 backslash, 123 and 125 the braces, 48 to 57 the
  digits, 117 the letter u.
\<close>

type_synonym str = "nat list"

definition ascii :: "string \<Rightarrow> str" where
  "ascii s = map of_char s"

definition wf_str :: "str \<Rightarrow> bool" where
  "wf_str s = list_all (\<lambda>c. c < 0x110000) s"

text \<open>
  \<open>Document\<close> of the retriever: the notebook reads only \<open>page_content\<close>.
\<close>

record document =
  page_content :: str
  metadata :: "(str \<times> str) list"

text \<open>
  \<^verbatim>\<open>
  class ResponseFormatter(BaseModel):
      answer: str = Field(description="The answer to the user's question")
      poem: str = Field(description='poem related to the user query')
      followup_question: str = Field(description="A followup question the user could ask")
  \<close>
\<close>

record ResponseFormatter =
  answer :: str
  poem :: str
  followup_question :: str

text \<open>\<open>response_formatter.dict()\<close>: the fields in the order of their declaration.\<close>

definition dict :: "ResponseFormatter \<Rightarrow> (str \<times> str) list" where
  "dict r = [(ascii ''answer'', answer r), (ascii ''poem'', poem r),
             (ascii ''followup_question'', followup_question r)]"

datatype role = System | Human

type_synonym message = "role \<times> str"

text \<open>
  Exceptions as values. \<open>Raised e\<close> is an exception \<open>e\<close> of a collaborator (the
  retriever with its embedder and index, or the language model); the notebook neither
  catches nor wraps any exception, so it leaves the chain as it was raised. \<open>KeyError\<close>
  and \<open>ValueError\<close> are those of \<open>str.format\<close>; \<open>AttributeError\<close> is raised by
  \<open>None.dict()\<close>.
\<close>

datatype 'e exn = Raised 'e | KeyError string | ValueError | AttributeError

section \<open>Document formatting\<close>

text \<open>
  \<open>sep.join(items)\<close>: the items in order, the separator before every item but the first.
\<close>

fun join_loop :: "str \<Rightarrow> bool \<Rightarrow> str \<Rightarrow> str list \<Rightarrow> str" where
  "join_loop sep first acc [] = acc"
| "join_loop sep first acc (x # xs) =
     join_loop sep False (if first then acc @ x else acc @ sep @ x) xs"

definition str_join :: "str \<Rightarrow> str list \<Rightarrow> str" where
  "str_join sep xs = join_loop sep True [] xs"

text \<open>
  \<^verbatim>\<open>
  def format_docs(docs):
      return "\n\n".join(doc.page_content for doc in docs)
  \<close>
\<close>

definition format_docs :: "document list \<Rightarrow> str" where
  "format_docs docs = str_join [10, 10] (map page_content docs)"

section \<open>Prompt template\<close>

text \<open>
  The system prompt of the notebook, a concatenation of adjacent literals; \<open>{context}\<close>
  is a replacement field, and no blank separates it from the sentence that follows.
\<close>

definition system_prompt :: string where
  "system_prompt =
     ''You are an assistant for question-answering tasks. '' @
     ''Use the following pieces of retrieved context to answer '' @
     ''the question. If you don't know the answer, say that you '' @
     ''don't know. Use three sentences maximum and keep the '' @
     ''answer concise.'' @
     [CHR 0x0A, CHR 0x0A] @
     ''{context}'' @
     ''Your response should be a valid JSON object.''"

text \<open>
  \<open>template.format(**kwargs)\<close> for templates whose replacement fields are plain names:
  \<open>{{\<close> and \<open>}}\<close> are literal braces, \<open>{name}\<close> is replaced by the value of \<open>name\<close>
  (\<open>KeyError\<close> when there is none), a single \<open>}\<close>, an unclosed \<open>{\<close> and a \<open>{\<close>
  inside a field are a \<open>ValueError\<close>. A value is inserted as it is and not scanned
  again.
\<close>

definition prepend :: "str \<Rightarrow> 'x + str \<Rightarrow> 'x + str" where
  "prepend p r = (case r of Inl e \<Rightarrow> Inl e | Inr t \<Rightarrow> Inr (p @ t))"

fun format_scan :: "string \<Rightarrow> (string \<times> str) list \<Rightarrow> 'e exn + str"
  and format_field :: "string \<Rightarrow> string \<Rightarrow> (string \<times> str) list \<Rightarrow> 'e exn + str" where
  "format_scan [] kw = Inr []"
| "format_scan (c # cs) kw =
     (if c = CHR ''{'' then
        (case cs of
           [] \<Rightarrow> Inl ValueError
         | d # ds \<Rightarrow> if d = CHR ''{'' then prepend [of_char d] (format_scan ds kw)
                    else format_field [] cs kw)
      else if c = CHR ''}'' then
        (case cs of
           [] \<Rightarrow> Inl ValueError
         | d # ds \<Rightarrow> if d = CHR ''}'' then prepend [of_char d] (format_scan ds kw)
                    else Inl ValueError)
      else prepend [of_char c] (format_scan cs kw))"
| "format_field name [] kw = Inl ValueError"
| "format_field name (c # cs) kw =
     (if c = CHR ''}'' then
        (case map_of kw name of
           None \<Rightarrow> Inl (KeyError name)
         | Some v \<Rightarrow> prepend v (format_scan cs kw))
      else if c = CHR ''{'' then Inl ValueError
      else format_field (name @ [c]) cs kw)"

text \<open>
  \<^verbatim>\<open>
  prompt = ChatPromptTemplate.from_messages(
      [("system", system_prompt), ("human", "{input}")])
  \<close>
  Invoking the template formats each message template with the same variables and tags
  the result with its role.
\<close>

definition prompt_templates :: "(role \<times> string) list" where
  "prompt_templates = [(System, system_prompt), (Human, ''{input}'')]"

fun format_messages :: "(role \<times> string) list \<Rightarrow> (string \<times> str) list \<Rightarrow> 'e exn + message list" where
  "format_messages [] kw = Inr []"
| "format_messages ((r, t) # ts) kw =
     (case format_scan t kw of
        Inl e \<Rightarrow> Inl e
      | Inr content \<Rightarrow>
          (case format_messages ts kw of
             Inl e \<Rightarrow> Inl e
           | Inr ms \<Rightarrow> Inr ((r, content) # ms)))"

definition prompt :: "(string \<times> str) list \<Rightarrow> 'e exn + message list" where
  "prompt kw = format_messages prompt_templates kw"

section \<open>Serialization\<close>

text \<open>
  \<open>json.dumps(d, indent=2)\<close> of the standard library, for the dictionaries the notebook
  passes: string keys and string values. With \<open>indent\<close> set the encoder is
  \<open>_make_iterencode\<close> of \<open>json/encoder.py\<close>, the item separator is \<open>,\<close> and the key
  separator is \<open>: \<close>; \<open>ensure_ascii\<close> keeps its default, so strings are written by
  \<open>encode_basestring_ascii\<close>.
\<close>

text \<open>\<open>'{0:04x}'.format(n)\<close>: lower-case hexadecimal, padded with zeros to four digits.\<close>

definition hexdigit :: "nat \<Rightarrow> nat" where
  "hexdigit d = (if d < 10 then 48 + d else 87 + d)"

fun hex :: "nat \<Rightarrow> str" where
  "hex n = (if n < 16 then [hexdigit n] else hex (n div 16) @ [hexdigit (n mod 16)])"

declare hex.simps [simp del]

definition format_04x :: "nat \<Rightarrow> str" where
  "format_04x n = replicate (4 - length (hex n)) 48 @ hex n"

text \<open>
  \<^verbatim>\<open>
  ESCAPE_ASCII = re.compile(r'([\\"]|[^\ -~])')
  ESCAPE_DCT = {'\\': '\\\\', '"': '\\"', '\b': '\\b', '\f': '\\f',
                '\n': '\\n', '\r': '\\r', '\t': '\\t'}
  for i in range(0x20):
      ESCAPE_DCT.setdefault(chr(i), '\\u{0:04x}'.format(i))
  \<close>
\<close>

definition ESCAPE_DCT :: "nat \<Rightarrow> str option" where
  "ESCAPE_DCT c =
     (if c = 92 then Some [92, 92]
      else if c = 34 then Some [92, 34]
      else if c = 8 then Some [92, 98]
      else if c = 12 then Some [92, 102]
      else if c = 10 then Some [92, 110]
      else if c = 13 then Some [92, 114]
      else if c = 9 then Some [92, 116]
      else if c < 0x20 then Some ([92, 117] @ format_04x c)
      else None)"

text \<open>
  \<^verbatim>\<open>
  def replace(match):
      s = match.group(0)
      try:
          return ESCAPE_DCT[s]
      except KeyError:
          n = ord(s)
          if n < 0x10000:
              return '\\u{0:04x}'.format(n)
          else:
              # surrogate pair
              n -= 0x10000
              s1 = 0xd800 | ((n >> 10) & 0x3ff)
              s2 = 0xdc00 | (n & 0x3ff)
              return '\\u{0:04x}\\u{1:04x}'.format(s1, s2)
  \<close>
\<close>

definition surrogate1 :: "nat \<Rightarrow> nat" where
  "surrogate1 c = 0xd800 OR (drop_bit 10 (c - 0x10000) AND 0x3ff)"

definition surrogate2 :: "nat \<Rightarrow> nat" where
  "surrogate2 c = 0xdc00 OR ((c - 0x10000) AND 0x3ff)"

definition replace :: "nat \<Rightarrow> str" where
  "replace c =
     (case ESCAPE_DCT c of
        Some r \<Rightarrow> r
      | None \<Rightarrow>
          if c < 0x10000 then [92, 117] @ format_04x c
          else [92, 117] @ format_04x (surrogate1 c) @ [92, 117] @ format_04x (surrogate2 c))"

text \<open>
  \<open>ESCAPE_ASCII.sub(replace, s)\<close>: a character matches when it is a backslash, a double
  quote, or outside the range from blank to tilde; every other character is kept.
\<close>

definition escape_char :: "nat \<Rightarrow> str" where
  "escape_char c = (if c = 92 \<or> c = 34 \<or> \<not> (32 \<le> c \<and> c \<le> 126) then replace c else [c])"

definition encode_basestring_ascii :: "str \<Rightarrow> str" where
  "encode_basestring_ascii s = [34] @ concat (map escape_char s) @ [34]"

text \<open>
  \<open>_iterencode_dict\<close> at indent level 0, with \<open>_indent\<close> two blanks: the chunks it
  yields, joined.
\<close>

fun iterencode_items :: "bool \<Rightarrow> (str \<times> str) list \<Rightarrow> str" where
  "iterencode_items first [] = []"
| "iterencode_items first ((key, val) # items) =
     (if first then [] else [44] @ [10, 32, 32]) @
     encode_basestring_ascii key @ [58, 32] @ encode_basestring_ascii val @
     iterencode_items False items"

definition iterencode_dict :: "(str \<times> str) list \<Rightarrow> str" where
  "iterencode_dict dct =
     (if dct = [] then ascii ''{}''
      else [123] @ [10, 32, 32] @ iterencode_items True dct @ [10] @ [125])"

text \<open>
  \<^verbatim>\<open>
  def to_json_string(response_formatter: ResponseFormatter) -> str:
      return json.dumps(response_formatter.dict(), indent=2)
  \<close>
\<close>

definition to_json_string :: "ResponseFormatter \<Rightarrow> str" where
  "to_json_string response_formatter = iterencode_dict (dict response_formatter)"

section \<open>Parsing\<close>

text \<open>
  \<open>json.loads(s)\<close> of the standard library, after \<open>json/decoder.py\<close> and
  \<open>json/scanner.py\<close>. A position in the text is modelled by the text that remains
  from it. Every rejection of the decoder is a \<open>JSONDecodeError\<close>; its message and
  position are not modelled. A number is kept as the literal that was matched (its
  conversion by \<open>int\<close> or \<open>float\<close> is not modelled), and so are the constants
  \<open>NaN\<close>, \<open>Infinity\<close> and \<open>-Infinity\<close>.
\<close>

datatype json =
    JNull
  | JBool bool
  | JNumber str
  | JString str
  | JArray "json list"
  | JObject "(str \<times> json) list"

datatype decode_error = JSONDecodeError | Out_of_fuel

text \<open>\<open>WHITESPACE = re.compile(r'[ \t\n\r]*')\<close>\<close>

definition is_ws :: "nat \<Rightarrow> bool" where
  "is_ws c = (c = 32 \<or> c = 9 \<or> c = 10 \<or> c = 13)"

definition skip_ws :: "str \<Rightarrow> str" where
  "skip_ws s = dropWhile is_ws s"

text \<open>
  \<^verbatim>\<open>
  BACKSLASH = {
      '"': '"', '\\': '\\', '/': '/',
      'b': '\b', 'f': '\f', 'n': '\n', 'r': '\r', 't': '\t',
  }
  \<close>
\<close>

definition BACKSLASH :: "nat \<Rightarrow> nat option" where
  "BACKSLASH esc =
     (if esc = 34 then Some 34
      else if esc = 92 then Some 92
      else if esc = 47 then Some 47
      else if esc = 98 then Some 8
      else if esc = 102 then Some 12
      else if esc = 110 then Some 10
      else if esc = 114 then Some 13
      else if esc = 116 then Some 9
      else None)"

text \<open>
  \<open>_decode_uXXXX\<close>: the four characters after the \<open>u\<close>, read as a hexadecimal number.
  The scanner that \<open>json.loads\<close> runs accepts exactly four hexadecimal digits here.
\<close>

definition hexval :: "nat \<Rightarrow> nat option" where
  "hexval c =
     (if 48 \<le> c \<and> c \<le> 57 then Some (c - 48)
      else if 97 \<le> c \<and> c \<le> 102 then Some (c - 87)
      else if 65 \<le> c \<and> c \<le> 70 then Some (c - 55)
      else None)"

fun int16 :: "nat \<Rightarrow> str \<Rightarrow> nat option" where
  "int16 acc [] = Some acc"
| "int16 acc (c # cs) =
     (case hexval c of None \<Rightarrow> None | Some d \<Rightarrow> int16 (16 * acc + d) cs)"

definition decode_uXXXX :: "str \<Rightarrow> decode_error + nat" where
  "decode_uXXXX s =
     (let esc = take 4 s in
      if length esc = 4 then
        (case int16 0 esc of None \<Rightarrow> Inl JSONDecodeError | Some uni \<Rightarrow> Inr uni)
      else Inl JSONDecodeError)"

text \<open>
  \<open>scanstring(s, end)\<close> with \<open>strict=True\<close>, from the character after the opening quote:
  the decoded string and the text after the closing quote.
  \<^verbatim>\<open>
        if esc != 'u':
            try:
                char = _b[esc]
            except KeyError:
                msg = "Invalid \\escape: {0!r}".format(esc)
                raise JSONDecodeError(msg, s, end)
            end += 1
        else:
            uni = _decode_uXXXX(s, end)
            end += 5
            if 0xd800 <= uni <= 0xdbff and s[end:end + 2] == '\\u':
                uni2 = _decode_uXXXX(s, end + 1)
                if 0xdc00 <= uni2 <= 0xdfff:
                    uni = 0x10000 + (((uni - 0xd800) << 10) | (uni2 - 0xdc00))
                    end += 6
            char = chr(uni)
        _append(char)
  \<close>
\<close>

definition cons_char :: "nat \<Rightarrow> decode_error + (str \<times> str) \<Rightarrow> decode_error + (str \<times> str)" where
  "cons_char c r = (case r of Inl e \<Rightarrow> Inl e | Inr (t, rest) \<Rightarrow> Inr (c # t, rest))"

definition join_surrogates :: "nat \<Rightarrow> nat \<Rightarrow> nat" where
  "join_surrogates uni uni2 = 0x10000 + (push_bit 10 (uni - 0xd800) OR (uni2 - 0xdc00))"

fun scanstring :: "str \<Rightarrow> decode_error + (str \<times> str)" where
  "scanstring [] = Inl JSONDecodeError"
| "scanstring (c # s) =
     (if c = 34 then Inr ([], s)
      else if c = 92 then
        (case s of
           [] \<Rightarrow> Inl JSONDecodeError
         | esc # s1 \<Rightarrow>
             if esc \<noteq> 117 then
               (case BACKSLASH esc of
                  None \<Rightarrow> Inl JSONDecodeError
                | Some char \<Rightarrow> cons_char char (scanstring s1))
             else
               (case decode_uXXXX s1 of
                  Inl e \<Rightarrow> Inl e
                | Inr uni \<Rightarrow>
                    if 0xd800 \<le> uni \<and> uni \<le> 0xdbff \<and> take 2 (drop 4 s1) = [92, 117] then
                      (case decode_uXXXX (drop 6 s1) of
                         Inl e \<Rightarrow> Inl e
                       | Inr uni2 \<Rightarrow>
                           if 0xdc00 \<le> uni2 \<and> uni2 \<le> 0xdfff
                           then cons_char (join_surrogates uni uni2) (scanstring (drop 10 s1))
                           else cons_char uni (scanstring (drop 4 s1)))
                    else cons_char uni (scanstring (drop 4 s1))))
      else if c < 0x20 then Inl JSONDecodeError
      else cons_char c (scanstring s))"

text \<open>
  \<open>NUMBER_RE = (-?(?:0|[1-9]\d*))(\.\d+)?([eE][-+]?\d+)?\<close>, over the ASCII digits:
  the matched literal and the text after it.
\<close>

definition is_digit :: "nat \<Rightarrow> bool" where
  "is_digit c = (48 \<le> c \<and> c \<le> 57)"

definition match_integer :: "str \<Rightarrow> (str \<times> str) option" where
  "match_integer s =
     (let sign = takeWhile (\<lambda>c. c = 45) (take 1 s); s1 = drop (length sign) s in
      case s1 of
        [] \<Rightarrow> None
      | c # r \<Rightarrow>
          if c = 48 then Some (sign @ [48], r)
          else if is_digit c then Some (sign @ c # takeWhile is_digit r, dropWhile is_digit r)
          else None)"

definition match_frac :: "str \<Rightarrow> str \<times> str" where
  "match_frac s =
     (case s of
        c # d # r \<Rightarrow>
          if c = 46 \<and> is_digit d then (c # d # takeWhile is_digit r, dropWhile is_digit r)
          else ([], s)
      | _ \<Rightarrow> ([], s))"

definition match_exp :: "str \<Rightarrow> str \<times> str" where
  "match_exp s =
     (case s of
        [] \<Rightarrow> ([], s)
      | e # r \<Rightarrow>
          if e = 101 \<or> e = 69 then
            (let sign = takeWhile (\<lambda>c. c = 45 \<or> c = 43) (take 1 r); r1 = drop (length sign) r in
             case r1 of
               [] \<Rightarrow> ([], s)
             | d # r2 \<Rightarrow>
                 if is_digit d then (e # sign @ d # takeWhile is_digit r2, dropWhile is_digit r2)
                 else ([], s))
          else ([], s))"

definition match_number :: "str \<Rightarrow> (str \<times> str) option" where
  "match_number s =
     (case match_integer s of
        None \<Rightarrow> None
      | Some (integer, s1) \<Rightarrow>
          (let (frac, s2) = match_frac s1; (exp, s3) = match_exp s2
           in Some (integer @ frac @ exp, s3)))"

text \<open>
  \<open>dict(pairs)\<close>: a later pair with a key that is already there replaces its value and
  keeps the place of the first.
\<close>

definition dict_of_pairs :: "(str \<times> json) list \<Rightarrow> (str \<times> json) list" where
  "dict_of_pairs pairs = foldl (\<lambda>d (k, v). AList.update k v d) [] pairs"

text \<open>
  \<open>_scan_once\<close>, \<open>JSONObject\<close> and \<open>JSONArray\<close> call each other, and the loops of the last
  two go on from where the value they scanned ended. The recursion is bounded by fuel:
  one unit for every round of a loop. \<open>json_loads\<close> gives as much fuel as the text has
  characters, plus one, which is never used up (\<open>json_loads_fuel\<close> below).
\<close>

function (sequential) scan_once :: "nat \<Rightarrow> str \<Rightarrow> decode_error + (json \<times> str)"
  and JSONObject :: "nat \<Rightarrow> str \<Rightarrow> decode_error + (json \<times> str)"
  and object_loop :: "nat \<Rightarrow> (str \<times> json) list \<Rightarrow> str \<Rightarrow> decode_error + (json \<times> str)"
  and JSONArray :: "nat \<Rightarrow> str \<Rightarrow> decode_error + (json \<times> str)"
  and array_loop :: "nat \<Rightarrow> json list \<Rightarrow> str \<Rightarrow> decode_error + (json \<times> str)" where
  "scan_once n string =
     (case string of
        [] \<Rightarrow> Inl JSONDecodeError
      | nextchar # rest \<Rightarrow>
          if nextchar = 34 then
            (case scanstring rest of Inl e \<Rightarrow> Inl e | Inr (t, r) \<Rightarrow> Inr (JString t, r))
          else if nextchar = 123 then JSONObject n rest
          else if nextchar = 91 then JSONArray n rest
          else if nextchar = 110 \<and> take 4 string = ascii ''null'' then Inr (JNull, drop 4 string)
          else if nextchar = 116 \<and> take 4 string = ascii ''true'' then Inr (JBool True, drop 4 string)
          else if nextchar = 102 \<and> take 5 string = ascii ''false'' then Inr (JBool False, drop 5 string)
          else
            (case match_number string of
               Some (literal, r) \<Rightarrow> Inr (JNumber literal, r)
             | None \<Rightarrow>
                 if nextchar = 78 \<and> take 3 string = ascii ''NaN''
                 then Inr (JNumber (ascii ''NaN''), drop 3 string)
                 else if nextchar = 73 \<and> take 8 string = ascii ''Infinity''
                 then Inr (JNumber (ascii ''Infinity''), drop 8 string)
                 else if nextchar = 45 \<and> take 9 string = ascii ''-Infinity''
                 then Inr (JNumber (ascii ''-Infinity''), drop 9 string)
                 else Inl JSONDecodeError))"
| "JSONObject n s =
     (case skip_ws s of
        [] \<Rightarrow> Inl JSONDecodeError
      | nextchar # rest \<Rightarrow>
          if nextchar = 125 then Inr (JObject [], rest)
          else if nextchar = 34 then object_loop n [] rest
          else Inl JSONDecodeError)"
| "object_loop 0 pairs s = Inl Out_of_fuel"
| "object_loop (Suc n) pairs s =
     (case scanstring s of
        Inl e \<Rightarrow> Inl e
      | Inr (key, s1) \<Rightarrow>
          (case skip_ws s1 of
             [] \<Rightarrow> Inl JSONDecodeError
           | colon # s2 \<Rightarrow>
               if colon \<noteq> 58 then Inl JSONDecodeError
               else
                 (case scan_once n (skip_ws s2) of
                    Inl e \<Rightarrow> Inl e
                  | Inr (val, s3) \<Rightarrow>
                      (case skip_ws s3 of
                         [] \<Rightarrow> Inl JSONDecodeError
                       | nextchar # s4 \<Rightarrow>
                           if nextchar = 125 then
                             Inr (JObject (dict_of_pairs (pairs @ [(key, val)])), s4)
                           else if nextchar \<noteq> 44 then Inl JSONDecodeError
                           else
                             (case skip_ws s4 of
                                [] \<Rightarrow> Inl JSONDecodeError
                              | quote # s5 \<Rightarrow>
                                  if quote \<noteq> 34 then Inl JSONDecodeError
                                  else object_loop n (pairs @ [(key, val)]) s5)))))"
| "JSONArray n s =
     (if take 1 (skip_ws s) = [93] then Inr (JArray [], drop 1 (skip_ws s))
      else array_loop n [] (skip_ws s))"
| "array_loop 0 vals s = Inl Out_of_fuel"
| "array_loop (Suc n) vals s =
     (case scan_once n s of
        Inl e \<Rightarrow> Inl e
      | Inr (val, s1) \<Rightarrow>
          (case skip_ws s1 of
             [] \<Rightarrow> Inl JSONDecodeError
           | nextchar # s2 \<Rightarrow>
               if nextchar = 93 then Inr (JArray (vals @ [val]), s2)
               else if nextchar \<noteq> 44 then Inl JSONDecodeError
               else array_loop n (vals @ [val]) (skip_ws s2)))"

  by pat_completeness auto

termination
  by (relation "measure (\<lambda>x. case x of
        Inl (Inl (n, s)) \<Rightarrow> 3 * n + 2
      | Inl (Inr (n, s)) \<Rightarrow> 3 * n + 1
      | Inr (Inl (n, pairs, s)) \<Rightarrow> 3 * n
      | Inr (Inr (Inl (n, s))) \<Rightarrow> 3 * n + 1
      | Inr (Inr (Inr (n, vals, s))) \<Rightarrow> 3 * n)") auto

text \<open>
  \<^verbatim>\<open>
  if s.startswith('\ufeff'):
      raise JSONDecodeError("Unexpected UTF-8 BOM (decode using utf-8-sig)", s, 0)
  ...
  obj, end = self.raw_decode(s, idx=_w(s, 0).end())
  end = _w(s, end).end()
  if end != len(s):
      raise JSONDecodeError("Extra data", s, end)
  return obj
  \<close>
\<close>

definition json_loads :: "str \<Rightarrow> decode_error + json" where
  "json_loads s =
     (if take 1 s = [0xfeff] then Inl JSONDecodeError
      else
        (case scan_once (Suc (length s)) (skip_ws s) of
           Inl e \<Rightarrow> Inl e
         | Inr (obj, rest) \<Rightarrow> if skip_ws rest = [] then Inr obj else Inl JSONDecodeError))"

section \<open>The chain\<close>

text \<open>\<open>StrOutputParser\<close> returns a string input unchanged.\<close>

definition StrOutputParser :: "str \<Rightarrow> str" where
  "StrOutputParser text = text"

text \<open>
  \<^verbatim>\<open>
  rag_chain = (
      {"context": retriever | format_docs, "input": RunnablePassthrough()}
      | prompt
      | llm
      | to_json_string
      | StrOutputParser()
  )
  \<close>
  The retriever (embedder and vector index) and the language model with its structured
  output are collaborators outside the notebook. Each is a parameter: a call takes the
  state of the outside world and returns its result, or the exception it raised, with
  the new state. A step runs only when every step before it has returned.

  \<^verbatim>\<open>llm = chatgpt.with_structured_output(ResponseFormatter)\<close> parses the reply of the
  model into a \<open>ResponseFormatter\<close>; when the reply holds no call of the tool, the parser
  returns \<open>None\<close>. The annotation of the parameter of \<open>to_json_string\<close> is not checked,
  so \<open>to_json_string(None)\<close> evaluates \<open>None.dict()\<close>, which raises \<open>AttributeError\<close>:
  the serialization step fails and \<open>StrOutputParser\<close> is not reached.
\<close>

definition rag_chain ::
  "(str \<Rightarrow> 'w \<Rightarrow> ('e + document list) \<times> 'w) \<Rightarrow>
   (message list \<Rightarrow> 'w \<Rightarrow> ('e + ResponseFormatter option) \<times> 'w) \<Rightarrow>
   str \<Rightarrow> 'w \<Rightarrow> ('e exn + str) \<times> 'w" where
  "rag_chain retriever llm query w =
     (case retriever query w of
        (Inl e, w1) \<Rightarrow> (Inl (Raised e), w1)
      | (Inr docs, w1) \<Rightarrow>
          (case prompt [(''context'', format_docs docs), (''input'', query)] of
             Inl e \<Rightarrow> (Inl e, w1)
           | Inr messages \<Rightarrow>
               (case llm messages w1 of
                  (Inl e, w2) \<Rightarrow> (Inl (Raised e), w2)
                | (Inr None, w2) \<Rightarrow> (Inl AttributeError, w2)
                | (Inr (Some response), w2) \<Rightarrow>
                    (Inr (StrOutputParser (to_json_string response)), w2))))"

section \<open>What a string is read back as\<close>

text \<open>
  The code point that comes back for a code point written as a surrogate pair, and the
  string that \<open>scanstring\<close> reads from the escaped form of a string: a high surrogate
  followed at once by a low surrogate is read as the one code point the two encode.
\<close>

definition astral_image :: "nat \<Rightarrow> nat" where
  "astral_image c = (if c < 0x10000 then c else join_surrogates (surrogate1 c) (surrogate2 c))"

fun reread :: "str \<Rightarrow> str" where
  "reread (c # d # cs) =
     (if 0xd800 \<le> c \<and> c \<le> 0xdbff \<and> 0xdc00 \<le> d \<and> d \<le> 0xdfff
      then join_surrogates c d # reread cs
      else astral_image c # reread (d # cs))"
| "reread [c] = [astral_image c]"
| "reread [] = []"

fun no_surrogate_pair :: "str \<Rightarrow> bool" where
  "no_surrogate_pair (c # d # cs) =
     (\<not> (0xd800 \<le> c \<and> c \<le> 0xdbff \<and> 0xdc00 \<le> d \<and> d \<le> 0xdfff) \<and> no_surrogate_pair (d # cs))"
| "no_surrogate_pair [c] = True"
| "no_surrogate_pair [] = True"

text \<open>
  The text after a \<open>\uXXXX\<close> escape does not continue it to a surrogate pair.
\<close>

definition nocombine :: "str \<Rightarrow> bool" where
  "nocombine R = (take 2 R \<noteq> [92, 117] \<or>
     (\<exists>u2. decode_uXXXX (drop 2 R) = Inr u2 \<and> \<not> (0xdc00 \<le> u2 \<and> u2 \<le> 0xdfff)))"

text \<open>
  Two properties of a result of the scanner: the text that remains is shorter than the
  text that was given, and the fuel was not used up.
\<close>

definition progress :: "decode_error + ('a \<times> str) \<Rightarrow> str \<Rightarrow> bool" where
  "progress res s = (\<forall>v r. res = Inr (v, r) \<longrightarrow> length r < length s)"

definition fuelled :: "decode_error + ('a \<times> str) \<Rightarrow> bool" where
  "fuelled res = (res \<noteq> Inl Out_of_fuel)"

text \<open>
  The two fixed parts of the system prompt, before and after the replacement field.
\<close>

abbreviation system_instructions :: str where
  "system_instructions \<equiv>
     ascii (''You are an assistant for question-answering tasks. '' @
            ''Use the following pieces of retrieved context to answer '' @
            ''the question. If you don't know the answer, say that you '' @
            ''don't know. Use three sentences maximum and keep the '' @
            ''answer concise.'' @ [CHR 0x0A, CHR 0x0A])"

abbreviation system_suffix :: str where
  "system_suffix \<equiv> ascii ''Your response should be a valid JSON object.''"

section \<open>Joining and formatting\<close>

lemma join_loop_False:
  "join_loop sep False acc xs = acc @ concat (map (\<lambda>x. sep @ x) xs)"
  by (induction xs arbitrary: acc) simp_all

lemma str_join_Nil: "str_join sep [] = []"
  by (simp add: str_join_def)

lemma str_join_Cons: "str_join sep (x # xs) = x @ concat (map (\<lambda>y. sep @ y) xs)"
  by (simp add: str_join_def join_loop_False)

lemma str_join_append:
  "xs \<noteq> [] \<Longrightarrow> ys \<noteq> [] \<Longrightarrow> str_join sep (xs @ ys) = str_join sep xs @ sep @ str_join sep ys"
  by (cases xs; cases ys) (simp_all add: str_join_Cons)

lemma length_str_join:
  "length (str_join sep xs) = sum_list (map length xs) + length sep * (length xs - 1)"
proof (cases xs)
  case Nil
  then show ?thesis by (simp add: str_join_Nil)
next
  case (Cons x ys)
  have "length (concat (map (\<lambda>y. sep @ y) ys)) = sum_list (map length ys) + length sep * length ys"
    by (induction ys) (simp_all add: algebra_simps)
  with Cons show ?thesis by (simp add: str_join_Cons)
qed

lemma prepend_Inr [simp]: "prepend p (Inr t) = Inr (p @ t)"
  by (simp add: prepend_def)

lemma prepend_prepend: "prepend p (prepend q r) = prepend (p @ q) r"
  by (cases r) (simp_all add: prepend_def)

lemma format_scan_literal:
  "CHR ''{'' \<notin> set l \<Longrightarrow> CHR ''}'' \<notin> set l \<Longrightarrow>
   format_scan (l @ r) kw = prepend (ascii l) (format_scan r kw)"
proof (induction l)
  case Nil
  show ?case by (simp add: ascii_def prepend_def split: sum.splits)
next
  case (Cons c l)
  then show ?case by (auto simp: ascii_def prepend_prepend)
qed

lemma format_field_name:
  "CHR ''}'' \<notin> set n2 \<Longrightarrow> CHR ''{'' \<notin> set n2 \<Longrightarrow>
   format_field n1 (n2 @ CHR ''}'' # r) kw =
     (case map_of kw (n1 @ n2) of None \<Rightarrow> Inl (KeyError (n1 @ n2))
      | Some v \<Rightarrow> prepend v (format_scan r kw))"
  by (induction n2 arbitrary: n1) (auto split: option.splits)

lemma format_scan_field:
  "name \<noteq> [] \<Longrightarrow> CHR ''{'' \<notin> set name \<Longrightarrow> CHR ''}'' \<notin> set name \<Longrightarrow>
   format_scan (CHR ''{'' # name @ CHR ''}'' # r) kw =
     (case map_of kw name of None \<Rightarrow> Inl (KeyError name)
      | Some v \<Rightarrow> prepend v (format_scan r kw))"
  using format_field_name [of name "[]" r kw]
  by (cases name) (auto simp del: format_field.simps split: option.splits)

lemma prompt_formatted:
  "(prompt [(''context'', context), (''input'', query)] :: 'e exn + message list) =
     Inr [(System,
           ascii (''You are an assistant for question-answering tasks. '' @
                  ''Use the following pieces of retrieved context to answer '' @
                  ''the question. If you don't know the answer, say that you '' @
                  ''don't know. Use three sentences maximum and keep the '' @
                  ''answer concise.'' @ [CHR 0x0A, CHR 0x0A]) @
           context @ ascii ''Your response should be a valid JSON object.''),
          (Human, query)]"
proof -
  let ?kw = "[(''context'', context), (''input'', query)]"
  let ?pre = "''You are an assistant for question-answering tasks. '' @
              ''Use the following pieces of retrieved context to answer '' @
              ''the question. If you don't know the answer, say that you '' @
              ''don't know. Use three sentences maximum and keep the '' @
              ''answer concise.'' @ [CHR 0x0A, CHR 0x0A]"
  let ?post = "''Your response should be a valid JSON object.''"
  have post: "(format_scan ?post ?kw :: 'e exn + str) = Inr (ascii ?post)"
    using format_scan_literal [of ?post "[]" ?kw] by simp
  have field: "(format_scan (''{context}'' @ ?post) ?kw :: 'e exn + str) = Inr (context @ ascii ?post)"
    using format_scan_field [of "''context''" ?post ?kw] post by simp
  have "system_prompt = ?pre @ (''{context}'' @ ?post)"
    by (simp add: system_prompt_def)
  moreover have "(format_scan (?pre @ (''{context}'' @ ?post)) ?kw :: 'e exn + str) =
      prepend (ascii ?pre) (format_scan (''{context}'' @ ?post) ?kw)"
    by (rule format_scan_literal) simp_all
  ultimately have sys: "(format_scan system_prompt ?kw :: 'e exn + str) =
      Inr (ascii ?pre @ context @ ascii ?post)"
    using field by simp
  have hum: "(format_scan ''{input}'' ?kw :: 'e exn + str) = Inr query"
    using format_scan_field [of "''input''" "[]" ?kw] by simp
  show ?thesis
    unfolding prompt_def prompt_templates_def using sys hum by simp
qed


lemma rag_chain_prompt:
  "rag_chain retriever llm query w =
     (case retriever query w of
        (Inl e, w1) \<Rightarrow> (Inl (Raised e), w1)
      | (Inr docs, w1) \<Rightarrow>
          (case llm [(System, system_instructions @ format_docs docs @ system_suffix),
                     (Human, query)] w1 of
             (Inl e, w2) \<Rightarrow> (Inl (Raised e), w2)
           | (Inr None, w2) \<Rightarrow> (Inl AttributeError, w2)
           | (Inr (Some response), w2) \<Rightarrow> (Inr (to_json_string response), w2)))"
  by (simp add: rag_chain_def prompt_formatted StrOutputParser_def
           split: prod.splits sum.splits option.splits)

section \<open>Prompt assembly\<close>

text \<open>
  C2. For every retrieved context and every query, the context block is the chunk texts
  in ranked order, a blank line (two line feeds) before every chunk but the first; the
  prompt is a sequence of two messages, the system message holding the fixed
  instructions, the context block and the fixed closing sentence, the human message
  holding the query as it is; and this sequence is what the chain hands to the model,
  whatever the model then returns.
\<close>

theorem C2_prompt_assembly:
  "format_docs [] = []
   \<and> format_docs (d # ds) =
       page_content d @ concat (map (\<lambda>d'. [10, 10] @ page_content d') ds)
   \<and> (prompt [(''context'', format_docs docs), (''input'', query)] :: 'e exn + message list) =
       Inr [(System, system_instructions @ format_docs docs @ system_suffix),
            (Human, query)]
   \<and> rag_chain retriever llm query w =
       (case retriever query w of
          (Inl e, w1) \<Rightarrow> (Inl (Raised e), w1)
        | (Inr docs, w1) \<Rightarrow>
            (case llm [(System, system_instructions @ format_docs docs @ system_suffix),
                       (Human, query)] w1 of
               (Inl e, w2) \<Rightarrow> (Inl (Raised e), w2)
             | (Inr None, w2) \<Rightarrow> (Inl AttributeError, w2)
             | (Inr (Some response), w2) \<Rightarrow> (Inr (to_json_string response), w2)))"
proof (intro conjI)
  show "format_docs [] = []"
    by (simp add: format_docs_def str_join_Nil)
  show "format_docs (d # ds) =
      page_content d @ concat (map (\<lambda>d'. [10, 10] @ page_content d') ds)"
    by (simp add: format_docs_def str_join_Cons comp_def)
  show "(prompt [(''context'', format_docs docs), (''input'', query)] :: 'e exn + message list) =
      Inr [(System, system_instructions @ format_docs docs @ system_suffix), (Human, query)]"
    by (rule prompt_formatted)
  show "rag_chain retriever llm query w =
       (case retriever query w of
          (Inl e, w1) \<Rightarrow> (Inl (Raised e), w1)
        | (Inr docs, w1) \<Rightarrow>
            (case llm [(System, system_instructions @ format_docs docs @ system_suffix),
                       (Human, query)] w1 of
               (Inl e, w2) \<Rightarrow> (Inl (Raised e), w2)
             | (Inr None, w2) \<Rightarrow> (Inl AttributeError, w2)
             | (Inr (Some response), w2) \<Rightarrow> (Inr (to_json_string response), w2)))"
    by (rule rag_chain_prompt)
qed

theorem C2_prompt_assembly_witness:
  "format_docs [\<lparr>page_content = ascii ''Cats are mammals.'', metadata = []\<rparr>,
                \<lparr>page_content = ascii ''Dogs are loyal.'', metadata = []\<rparr>] =
     ascii ''Cats are mammals.'' @ [10, 10] @ ascii ''Dogs are loyal.''
   \<and> (prompt [(''context'', format_docs [\<lparr>page_content = ascii ''Cats are mammals.'', metadata = []\<rparr>,
                                             \<lparr>page_content = ascii ''Dogs are loyal.'', metadata = []\<rparr>]),
               (''input'', ascii ''What are {cats}?'')] :: unit exn + message list) =
       Inr [(System, system_instructions @ ascii ''Cats are mammals.'' @ [10, 10] @
                     ascii ''Dogs are loyal.'' @ system_suffix),
            (Human, ascii ''What are {cats}?'')]"
proof -
  let ?cats = "\<lparr>page_content = ascii ''Cats are mammals.'', metadata = []\<rparr>"
  let ?dogs = "\<lparr>page_content = ascii ''Dogs are loyal.'', metadata = []\<rparr>"
  note c = C2_prompt_assembly
    [where d = ?cats and ds = "[?dogs]" and docs = "[?cats, ?dogs]"
       and query = "ascii ''What are {cats}?''"
       and retriever = "\<lambda>q w. (Inr [?cats, ?dogs] :: unit + document list, w :: unit)"
       and llm = "\<lambda>ms w. (Inl (), w)" and w = "()"]
  note c2 = c [THEN conjunct2, THEN conjunct1]
  note c3 = c [THEN conjunct2, THEN conjunct2, THEN conjunct1]
  have 1: "format_docs [?cats, ?dogs] =
      ascii ''Cats are mammals.'' @ [10, 10] @ ascii ''Dogs are loyal.''"
    using c2 by simp
  have 2: "(prompt [(''context'', format_docs [?cats, ?dogs]),
      (''input'', ascii ''What are {cats}?'')] :: unit exn + message list) =
      Inr [(System, system_instructions @ format_docs [?cats, ?dogs] @ system_suffix),
           (Human, ascii ''What are {cats}?'')]"
    by (rule c3)
  show ?thesis
    unfolding 2 unfolding 1 by simp
qed

text \<open>
  C3, as stated, fails: the notebook has no prompt budget. No bound holds for the length
  of the context block, whatever the budget.
\<close>

theorem C3_no_budget_counterexample:
  "\<not> (\<exists>budget. \<forall>docs. length (format_docs docs) \<le> budget)"
proof
  assume "\<exists>budget. \<forall>docs. length (format_docs docs) \<le> budget"
  then obtain budget where b: "\<forall>docs. length (format_docs docs) \<le> budget" ..
  let ?d = "\<lparr>page_content = replicate (Suc budget) 97, metadata = []\<rparr>"
  have "length (format_docs [?d]) = Suc budget"
    by (simp add: format_docs_def str_join_Cons)
  with b show False
    by (metis Suc_n_not_le_n)
qed

text \<open>
  C3, amended. Prompt assembly enforces no maximum length: for every retrieved context
  the context block holds every chunk in full and in ranked order. Its length is the sum
  of the lengths of the chunks plus two for every delimiter, and the chunk at every rank
  \<open>i\<close> stands whole between the block of the chunks ranked before it and the block of
  those ranked after it. No chunk is dropped and none is cut.
\<close>

theorem C3_context_keeps_every_chunk:
  "length (format_docs docs) =
     sum_list (map (\<lambda>d. length (page_content d)) docs) + 2 * (length docs - 1)
   \<and> (\<forall>i < length docs.
        format_docs docs =
          (if i = 0 then [] else format_docs (take i docs) @ [10, 10]) @
          page_content (docs ! i) @
          (if Suc i = length docs then [] else [10, 10] @ format_docs (drop (Suc i) docs)))"
proof (intro conjI allI impI)
  show "length (format_docs docs) =
      sum_list (map (\<lambda>d. length (page_content d)) docs) + 2 * (length docs - 1)"
    by (simp add: format_docs_def length_str_join comp_def)
next
  fix i assume i: "i < length docs"
  let ?cs = "map page_content docs"
  have split: "?cs = take i ?cs @ [?cs ! i] @ drop (Suc i) ?cs"
    using i id_take_nth_drop [of i ?cs] by simp
  have one: "str_join [10, 10] [?cs ! i] = ?cs ! i"
    by (simp add: str_join_Cons)
  have mid: "str_join [10, 10] ([?cs ! i] @ drop (Suc i) ?cs) =
      ?cs ! i @ (if Suc i = length docs then [] else [10, 10] @ str_join [10, 10] (drop (Suc i) ?cs))"
  proof (cases "Suc i = length docs")
    case True
    then show ?thesis using one by simp
  next
    case False
    with i have "drop (Suc i) ?cs \<noteq> []" by simp
    then show ?thesis
      using str_join_append [of "[?cs ! i]" "drop (Suc i) ?cs" "[10, 10]"] one False by simp
  qed
  have "str_join [10, 10] ?cs =
      (if i = 0 then [] else str_join [10, 10] (take i ?cs) @ [10, 10]) @
      str_join [10, 10] ([?cs ! i] @ drop (Suc i) ?cs)"
  proof (cases "i = 0")
    case True
    then show ?thesis using split by simp
  next
    case False
    with i have "take i ?cs \<noteq> []" by auto
    then have "str_join [10, 10] (take i ?cs @ ([?cs ! i] @ drop (Suc i) ?cs)) =
        str_join [10, 10] (take i ?cs) @ [10, 10] @ str_join [10, 10] ([?cs ! i] @ drop (Suc i) ?cs)"
      by (intro str_join_append) simp_all
    with split False show ?thesis by simp
  qed
  with mid i show "format_docs docs =
          (if i = 0 then [] else format_docs (take i docs) @ [10, 10]) @
          page_content (docs ! i) @
          (if Suc i = length docs then [] else [10, 10] @ format_docs (drop (Suc i) docs))"
    by (simp add: format_docs_def take_map drop_map)
qed

theorem C3_context_keeps_every_chunk_witness:
  "(1::nat) < length [\<lparr>page_content = ascii ''cats'', metadata = []\<rparr>,
                      \<lparr>page_content = ascii ''dogs'', metadata = []\<rparr>]
   \<and> format_docs [\<lparr>page_content = ascii ''cats'', metadata = []\<rparr>,
                   \<lparr>page_content = ascii ''dogs'', metadata = []\<rparr>] =
       ascii ''cats'' @ [10, 10] @ ascii ''dogs''
   \<and> length (format_docs [\<lparr>page_content = ascii ''cats'', metadata = []\<rparr>,
                           \<lparr>page_content = ascii ''dogs'', metadata = []\<rparr>]) = 10"
  using C3_context_keeps_every_chunk
    [of "[\<lparr>page_content = ascii ''cats'', metadata = []\<rparr>,
          \<lparr>page_content = ascii ''dogs'', metadata = []\<rparr>]"]
  by (simp add: format_docs_def str_join_Cons ascii_def)

section \<open>Failure of a step\<close>

text \<open>
  C9, as stated, fails in one part: the error that leaves the chain does not identify
  the failing step. A retrieval that fails and a generation that fails with the same
  exception give the same result.
\<close>

theorem C9_same_error_counterexample:
  "fst (rag_chain (\<lambda>q w. (Inl ''APITimeoutError'', w))
                  (\<lambda>ms w. (Inr (Some \<lparr>answer = [], poem = [], followup_question = []\<rparr>), w))
                  (ascii ''What is an AGENT?'') ())
   = fst (rag_chain (\<lambda>q w. (Inr [], w))
                    (\<lambda>ms w. (Inl ''APITimeoutError'', w))
                    (ascii ''What is an AGENT?'') ())"
  by (simp add: rag_chain_prompt)

text \<open>
  C9, amended. When a step fails, the chain runs no step after it, the error of that
  step leaves the chain as it was raised, neither wrapped in a typed error nor marked
  with the step, and no text is returned, partial or whole.
  \<^item> When the retriever (query embedding and retrieval) raises, the chain returns that
    exception and the world is as the retriever left it: the model is not called,
    whatever it is.
  \<^item> When the model raises, the chain returns that exception, and the world is as the
    model left it.
  \<^item> When the model returns \<open>None\<close>, serialization fails: the chain returns the
    \<open>AttributeError\<close> of \<open>to_json_string\<close>.
  \<^item> Every error of the chain is one of these three; with the fixed template and both
    variables given, prompt assembly returns.
  \<^item> A text is returned only when every step returned, and it is then the whole
    serialization of the response of the model.
\<close>

theorem C9_failure_propagation:
  "(retriever query w = (Inl e, w1) \<longrightarrow>
      rag_chain retriever llm query w = (Inl (Raised e), w1))
   \<and> (retriever query w = (Inr docs, w1) \<and>
       llm [(System, system_instructions @ format_docs docs @ system_suffix), (Human, query)] w1
         = (Inl e, w2) \<longrightarrow>
      rag_chain retriever llm query w = (Inl (Raised e), w2))
   \<and> (retriever query w = (Inr docs, w1) \<and>
       llm [(System, system_instructions @ format_docs docs @ system_suffix), (Human, query)] w1
         = (Inr None, w2) \<longrightarrow>
      rag_chain retriever llm query w = (Inl AttributeError, w2))
   \<and> (fst (rag_chain retriever llm query w) = Inl x \<longrightarrow>
      (\<exists>e'. x = Raised e' \<and> fst (retriever query w) = Inl e') \<or>
      (\<exists>docs' w'. retriever query w = (Inr docs', w') \<and>
         ((\<exists>e'. x = Raised e' \<and>
            fst (llm [(System, system_instructions @ format_docs docs' @ system_suffix),
                      (Human, query)] w') = Inl e') \<or>
          (x = AttributeError \<and>
            fst (llm [(System, system_instructions @ format_docs docs' @ system_suffix),
                      (Human, query)] w') = Inr None))))
   \<and> (fst (rag_chain retriever llm query w) = Inr out \<longrightarrow>
      (\<exists>docs' w' response.
         retriever query w = (Inr docs', w') \<and>
         fst (llm [(System, system_instructions @ format_docs docs' @ system_suffix),
                   (Human, query)] w') = Inr (Some response) \<and>
         out = to_json_string response))"
  by (auto simp: rag_chain_prompt split: prod.splits sum.splits option.splits)

theorem C9_failure_propagation_witness:
  "rag_chain (\<lambda>q w. (Inl ''IndexError'', w @ [''retriever'']))
             (\<lambda>ms w. (Inr (Some \<lparr>answer = [], poem = [], followup_question = []\<rparr>),
                        w @ [''llm'']))
             (ascii ''What is an AGENT?'') []
     = (Inl (Raised ''IndexError''), [''retriever''])
   \<and> rag_chain (\<lambda>q w. (Inr [], w @ [''retriever'']))
               (\<lambda>ms w. (Inl ''RateLimitError'', w @ [''llm'']))
               (ascii ''What is an AGENT?'') []
     = (Inl (Raised ''RateLimitError''), [''retriever'', ''llm''])
   \<and> rag_chain (\<lambda>q w. (Inr [] :: string + document list, w @ [''retriever'']))
               (\<lambda>ms w. (Inr None, w @ [''llm'']))
               (ascii ''What is an AGENT?'') []
     = (Inl AttributeError, [''retriever'', ''llm''])
   \<and> fst (rag_chain (\<lambda>q w. (Inr [] :: string + document list, w @ [''retriever'']))
               (\<lambda>ms w. (Inr (Some \<lparr>answer = [], poem = [], followup_question = []\<rparr>),
                          w @ [''llm'']))
               (ascii ''What is an AGENT?'') [])
     = Inr (to_json_string \<lparr>answer = [], poem = [], followup_question = []\<rparr>)"
proof -
  let ?q = "ascii ''What is an AGENT?''"
  let ?r0 = "\<lparr>answer = [], poem = [], followup_question = []\<rparr>"
  let ?ms = "[(System, system_instructions @ format_docs [] @ system_suffix), (Human, ?q)]"
  let ?ret1 = "\<lambda>(q::str) (w::string list).
    (Inl ''IndexError'' :: string + document list, w @ [''retriever''])"
  let ?ret2 = "\<lambda>(q::str) (w::string list).
    (Inr [] :: string + document list, w @ [''retriever''])"
  let ?llm1 = "\<lambda>(ms::message list) (w::string list).
    (Inr (Some ?r0) :: string + ResponseFormatter option, w @ [''llm''])"
  let ?llm2 = "\<lambda>(ms::message list) (w::string list).
    (Inl ''RateLimitError'' :: string + ResponseFormatter option, w @ [''llm''])"
  let ?llm3 = "\<lambda>(ms::message list) (w::string list).
    (Inr None :: string + ResponseFormatter option, w @ [''llm''])"
  have a: "?ret1 ?q [] = (Inl ''IndexError'', [''retriever''])" by simp
  have b: "?ret2 ?q [] = (Inr [], [''retriever'']) \<and>
           ?llm2 ?ms [''retriever''] = (Inl ''RateLimitError'', [''retriever'', ''llm''])"
    by simp
  have c: "?ret2 ?q [] = (Inr [], [''retriever'']) \<and>
           ?llm3 ?ms [''retriever''] = (Inr None, [''retriever'', ''llm''])"
    by simp
  from a have 1: "rag_chain ?ret1 ?llm1 ?q [] = (Inl (Raised ''IndexError''), [''retriever''])"
    using C9_failure_propagation [where retriever = ?ret1 and llm = ?llm1 and query = ?q
        and w = "[]" and e = "''IndexError''" and ?w1.0 = "[''retriever'']"] by blast
  from b have 2: "rag_chain ?ret2 ?llm2 ?q [] =
      (Inl (Raised ''RateLimitError''), [''retriever'', ''llm''])"
    using C9_failure_propagation [where retriever = ?ret2 and llm = ?llm2 and query = ?q
        and w = "[]" and e = "''RateLimitError''" and docs = "[]"
        and ?w1.0 = "[''retriever'']" and ?w2.0 = "[''retriever'', ''llm'']"] by blast
  from c have 3: "rag_chain ?ret2 ?llm3 ?q [] = (Inl AttributeError, [''retriever'', ''llm''])"
    using C9_failure_propagation [where retriever = ?ret2 and llm = ?llm3 and query = ?q
        and w = "[]" and docs = "[]"
        and ?w1.0 = "[''retriever'']" and ?w2.0 = "[''retriever'', ''llm'']"] by blast
  have run: "fst (rag_chain ?ret2 ?llm1 ?q []) = Inr (to_json_string ?r0)"
    by (simp add: rag_chain_prompt)
  have 4: "fst (rag_chain ?ret2 ?llm1 ?q []) = Inr (to_json_string ?r0)"
    using C9_failure_propagation [where retriever = ?ret2 and llm = ?llm1 and query = ?q
        and w = "[]" and out = "to_json_string ?r0"] run by blast
  from 1 2 3 4 show ?thesis by simp
qed

section \<open>Hexadecimal escapes\<close>

lemma hexdigit_hexval: "d < 16 \<Longrightarrow> hexval (hexdigit d) = Some d"
  by (auto simp: hexval_def hexdigit_def)

lemma hex_1: "n < 16 \<Longrightarrow> hex n = [hexdigit n]"
  by (simp add: hex.simps)

lemma hex_step: "16 \<le> n \<Longrightarrow> hex n = hex (n div 16) @ [hexdigit (n mod 16)]"
  by (subst hex.simps) simp

lemma hex_2: "16 \<le> n \<Longrightarrow> n < 256 \<Longrightarrow> hex n = [hexdigit (n div 16), hexdigit (n mod 16)]"
proof -
  assume a: "16 \<le> n" "n < 256"
  then have "n div 16 < 16" by simp
  with a show ?thesis by (simp add: hex_step [of n] hex_1)
qed


lemma div16_div16: "(n::nat) div 16 div 16 = n div 256"
  by (simp add: div_mult2_eq [symmetric])

lemma div16_div256: "(n::nat) div 16 div 256 = n div 4096"
  by (simp add: div_mult2_eq [symmetric])

lemma div256_div16: "(n::nat) div 256 div 16 = n div 4096"
  by (simp add: div_mult2_eq [symmetric])

lemma hex_3: "256 \<le> n \<Longrightarrow> n < 4096 \<Longrightarrow>
  hex n = [hexdigit (n div 256), hexdigit (n div 16 mod 16), hexdigit (n mod 16)]"
proof -
  assume a: "256 \<le> n" "n < 4096"
  then have b: "16 \<le> n div 16" "n div 16 < 256" by simp_all
  from a have "16 \<le> n" by simp
  then show ?thesis using b by (simp add: hex_step [of n] hex_2 div16_div16)
qed

lemma hex_4: "4096 \<le> n \<Longrightarrow> n < 65536 \<Longrightarrow>
  hex n = [hexdigit (n div 4096), hexdigit (n div 256 mod 16), hexdigit (n div 16 mod 16), hexdigit (n mod 16)]"
proof -
  assume a: "4096 \<le> n" "n < 65536"
  then have b: "256 \<le> n div 16" "n div 16 < 4096" by simp_all
  from a have "16 \<le> n" by simp
  then show ?thesis using b by (simp add: hex_step [of n] hex_3 div16_div16 div16_div256)
qed

lemma replicate_3: "replicate 3 x = [x, x, x]"
  by (simp add: numeral_3_eq_3)

lemma replicate_2: "replicate 2 x = [x, x]"
  by (simp add: numeral_2_eq_2)

lemma format_04x_digits:
  assumes "n < 65536"
  shows "format_04x n =
    [hexdigit (n div 4096), hexdigit (n div 256 mod 16), hexdigit (n div 16 mod 16), hexdigit (n mod 16)]"
proof -
  have z: "hexdigit 0 = 48" by (simp add: hexdigit_def)
  consider "n < 16" | "16 \<le> n" "n < 256" | "256 \<le> n" "n < 4096" | "4096 \<le> n"
    by linarith
  then show ?thesis
  proof cases
    case 1
    then show ?thesis by (simp add: format_04x_def hex_1 z replicate_3)
  next
    case 2
    then have "n div 256 = 0" "n div 4096 = 0" by simp_all
    with 2 show ?thesis by (simp add: format_04x_def hex_2 z replicate_2)
  next
    case 3
    then have "n div 256 < 16" "n div 4096 = 0" by simp_all
    with 3 show ?thesis by (simp add: format_04x_def hex_3 z)
  next
    case 4
    with assms show ?thesis by (simp add: format_04x_def hex_4)
  qed
qed

lemma hex_digits_value:
  "16 * (16 * (16 * (n div 4096) + n div 256 mod 16) + n div 16 mod 16) + n mod 16 = (n::nat)"
proof -
  have "16 * (n div 4096) + n div 256 mod 16 = n div 256"
    using mult_div_mod_eq [of 16 "n div 256"] by (simp add: div256_div16)
  moreover have "16 * (n div 256) + n div 16 mod 16 = n div 16"
    using mult_div_mod_eq [of 16 "n div 16"] by (simp add: div16_div16)
  moreover have "16 * (n div 16) + n mod 16 = n"
    by simp
  ultimately show ?thesis by simp
qed

lemma decode_format_04x:
  assumes "n < 65536"
  shows "decode_uXXXX (format_04x n @ r) = Inr n"
proof -
  have d: "n div 4096 < 16" using assms by simp
  have m: "n div 256 mod 16 < 16" "n div 16 mod 16 < 16" "n mod 16 < 16" by simp_all
  have "int16 0 (format_04x n @ []) =
      Some (16 * (16 * (16 * (n div 4096) + n div 256 mod 16) + n div 16 mod 16) + n mod 16)"
    using d m by (simp add: format_04x_digits [OF assms] hexdigit_hexval del: mult_Suc_right)
  then have "int16 0 (format_04x n) = Some n"
    by (simp only: hex_digits_value append_Nil2)
  moreover have "take 4 (format_04x n @ r) = format_04x n"
    by (simp add: format_04x_digits [OF assms])
  moreover have "length (format_04x n) = 4"
    by (simp add: format_04x_digits [OF assms])
  ultimately show ?thesis
    by (simp add: decode_uXXXX_def)
qed

section \<open>Surrogate pairs\<close>

lemma and_3ff: "(x::nat) AND 0x3ff = x mod 1024"
proof -
  have "x AND mask 10 = x mod 2 ^ 10"
    by (simp only: take_bit_eq_mask [symmetric] take_bit_eq_mod)
  then show ?thesis by (simp add: mask_eq_exp_minus_1)
qed

lemma push_bit_10_or:
  assumes "y < 1024"
  shows "push_bit 10 (a::nat) OR y = a * 1024 + y"
proof -
  have y: "take_bit 10 y = y" using assms by (simp add: take_bit_nat_eq_self)
  have "push_bit 10 a AND take_bit 10 y = 0"
    by (auto simp: bit_eq_iff bit_simps)
  then have "push_bit 10 a AND y = 0" by (simp only: y)
  then have "push_bit 10 a + y = push_bit 10 a OR y" by (rule disjunctive_add_eq_or)
  then show ?thesis by (simp add: push_bit_eq_mult)
qed

lemma d800_or: "y < 1024 \<Longrightarrow> (0xd800::nat) OR y = 0xd800 + y"
  using push_bit_10_or [of y 54] by (simp add: push_bit_eq_mult)

lemma dc00_or: "y < 1024 \<Longrightarrow> (0xdc00::nat) OR y = 0xdc00 + y"
  using push_bit_10_or [of y 55] by (simp add: push_bit_eq_mult)

lemma surrogate1_eq: "surrogate1 c = 0xd800 + (c - 0x10000) div 1024 mod 1024"
  by (simp add: surrogate1_def and_3ff d800_or drop_bit_eq_div)

lemma surrogate2_eq: "surrogate2 c = 0xdc00 + (c - 0x10000) mod 1024"
  by (simp add: surrogate2_def and_3ff dc00_or)

lemma surrogate1_range: "0xd800 \<le> surrogate1 c \<and> surrogate1 c \<le> 0xdbff"
proof -
  have "(c - 0x10000) div 1024 mod 1024 < 1024" by simp
  then show ?thesis unfolding surrogate1_eq by linarith
qed

lemma surrogate2_range: "0xdc00 \<le> surrogate2 c \<and> surrogate2 c \<le> 0xdfff"
proof -
  have "(c - 0x10000) mod 1024 < 1024" by simp
  then show ?thesis unfolding surrogate2_eq by linarith
qed

lemma join_surrogates_eq:
  "0xdc00 \<le> u2 \<Longrightarrow> u2 \<le> 0xdfff \<Longrightarrow>
   join_surrogates u u2 = 0x10000 + ((u - 0xd800) * 1024 + (u2 - 0xdc00))"
  by (simp add: join_surrogates_def push_bit_10_or)

lemma join_surrogates_inverse:
  assumes "0x10000 \<le> c" "c < 0x110000"
  shows "join_surrogates (surrogate1 c) (surrogate2 c) = c"
proof -
  define d where "d = c - 0x10000"
  have d: "d < 1024 * 1024" "c = 0x10000 + d" using assms by (simp_all add: d_def)
  then have "d div 1024 < 1024" by simp
  then have m: "d div 1024 mod 1024 = d div 1024" by simp
  have "join_surrogates (surrogate1 c) (surrogate2 c) =
      0x10000 + ((surrogate1 c - 0xd800) * 1024 + (surrogate2 c - 0xdc00))"
    using surrogate2_range [of c] by (intro join_surrogates_eq) simp_all
  also have "\<dots> = 0x10000 + (d div 1024 * 1024 + d mod 1024)"
    by (simp add: surrogate1_eq surrogate2_eq m d_def [symmetric])
  also have "\<dots> = c" using d by simp
  finally show ?thesis .
qed

section \<open>Scanning an escaped string\<close>

lemma length_format_04x: "n < 65536 \<Longrightarrow> length (format_04x n) = 4"
  by (simp add: format_04x_digits)

lemma cons_char_Inr [simp]: "cons_char c (Inr (t, r)) = Inr (c # t, r)"
  by (simp add: cons_char_def)

lemma scanstring_plain:
  "32 \<le> c \<Longrightarrow> c \<noteq> 34 \<Longrightarrow> c \<noteq> 92 \<Longrightarrow> scanstring (c # R) = cons_char c (scanstring R)"
  by simp

lemma scanstring_backslash:
  "x \<noteq> 117 \<Longrightarrow> BACKSLASH x = Some c \<Longrightarrow> scanstring (92 # x # R) = cons_char c (scanstring R)"
  by simp

lemma scanstring_u:
  assumes "u < 65536"
  shows "scanstring (92 # 117 # format_04x u @ R) =
     (if 0xd800 \<le> u \<and> u \<le> 0xdbff \<and> take 2 R = [92, 117] then
        (case decode_uXXXX (drop 2 R) of
           Inl e \<Rightarrow> Inl e
         | Inr u2 \<Rightarrow>
             if 0xdc00 \<le> u2 \<and> u2 \<le> 0xdfff
             then cons_char (join_surrogates u u2) (scanstring (drop 6 R))
             else cons_char u (scanstring R))
      else cons_char u (scanstring R))"
  using assms by (simp add: decode_format_04x length_format_04x split: sum.splits)

lemma scanstring_u_single:
  assumes "u < 65536" "0xd800 \<le> u \<and> u \<le> 0xdbff \<longrightarrow> nocombine R"
  shows "scanstring (92 # 117 # format_04x u @ R) = cons_char u (scanstring R)"
  using assms by (auto simp: scanstring_u nocombine_def simp del: scanstring.simps)

lemma scanstring_u_pair:
  assumes "0xd800 \<le> u" "u \<le> 0xdbff" "0xdc00 \<le> u2" "u2 \<le> 0xdfff"
  shows "scanstring (92 # 117 # format_04x u @ 92 # 117 # format_04x u2 @ R) =
     cons_char (join_surrogates u u2) (scanstring R)"
  using assms by (simp add: scanstring_u decode_format_04x length_format_04x del: scanstring.simps)

declare scanstring.simps [simp del]

lemma escape_char_u:
  "c < 0x10000 \<Longrightarrow> (c < 32 \<or> 126 < c) \<Longrightarrow> c \<notin> {8, 9, 10, 12, 13} \<Longrightarrow>
   escape_char c = 92 # 117 # format_04x c"
  by (auto simp: escape_char_def replace_def ESCAPE_DCT_def)

lemma escape_char_astral:
  "0x10000 \<le> c \<Longrightarrow>
   escape_char c = 92 # 117 # format_04x (surrogate1 c) @ 92 # 117 # format_04x (surrogate2 c)"
  by (auto simp: escape_char_def replace_def ESCAPE_DCT_def)

lemma escape_char_plain:
  "32 \<le> c \<Longrightarrow> c \<le> 126 \<Longrightarrow> c \<noteq> 34 \<Longrightarrow> c \<noteq> 92 \<Longrightarrow> escape_char c = [c]"
  by (simp add: escape_char_def)

lemma escape_char_short:
  "c \<in> {8, 9, 10, 12, 13, 34, 92} \<Longrightarrow>
   \<exists>x. escape_char c = [92, x] \<and> x \<noteq> 117 \<and> BACKSLASH x = Some c"
  by (auto simp: escape_char_def replace_def ESCAPE_DCT_def BACKSLASH_def)

lemma escape_char_cases:
  fixes c :: nat
  obtains (short) "c \<in> {8, 9, 10, 12, 13, 34, 92}"
  | (plain) "32 \<le> c" "c \<le> 126" "c \<noteq> 34" "c \<noteq> 92"
  | (u) "c < 0x10000" "c < 32 \<or> 126 < c" "c \<notin> {8, 9, 10, 12, 13}"
  | (astral) "0x10000 \<le> c"
  by (cases "c < 32"; cases "c \<le> 126"; cases "c < 0x10000") auto

lemma escape_char_step:
  assumes "0xd800 \<le> c \<and> c \<le> 0xdbff \<longrightarrow> nocombine R"
  shows "scanstring (escape_char c @ R) = cons_char (astral_image c) (scanstring R)"
proof (cases c rule: escape_char_cases)
  case short
  then obtain x where "escape_char c = [92, x]" "x \<noteq> 117" "BACKSLASH x = Some c"
    using escape_char_short by blast
  moreover from short have "astral_image c = c" by (auto simp: astral_image_def)
  ultimately show ?thesis by (simp add: scanstring_backslash)
next
  case plain
  then show ?thesis by (simp add: escape_char_plain scanstring_plain astral_image_def)
next
  case u
  then show ?thesis
    using assms by (simp add: escape_char_u scanstring_u_single astral_image_def)
next
  case astral
  then show ?thesis
    using surrogate1_range [of c] surrogate2_range [of c]
    by (simp add: escape_char_astral scanstring_u_pair astral_image_def)
qed

lemma nocombine_quote: "nocombine (34 # T)"
  by (simp add: nocombine_def)

lemma nocombine_escape:
  assumes "\<not> (0xdc00 \<le> d \<and> d \<le> 0xdfff)"
  shows "nocombine (escape_char d @ T)"
proof (cases d rule: escape_char_cases)
  case short
  then obtain x where "escape_char d = [92, x]" "x \<noteq> 117"
    using escape_char_short by blast
  then show ?thesis by (simp add: nocombine_def)
next
  case plain
  then show ?thesis by (simp add: escape_char_plain nocombine_def)
next
  case u
  then show ?thesis
    using assms by (simp add: escape_char_u nocombine_def decode_format_04x)
next
  case astral
  have "surrogate1 d < 65536" using surrogate1_range [of d] by simp
  then show ?thesis
    using astral surrogate1_range [of d]
    by (simp add: escape_char_astral nocombine_def decode_format_04x)
qed

lemma scanstring_escaped:
  "scanstring (concat (map escape_char s) @ 34 # rest) = Inr (reread s, rest)"
proof (induction s rule: reread.induct)
  case (1 c d cs)
  show ?case
  proof (cases "0xd800 \<le> c \<and> c \<le> 0xdbff \<and> 0xdc00 \<le> d \<and> d \<le> 0xdfff")
    case True
    then have "escape_char c = 92 # 117 # format_04x c" "escape_char d = 92 # 117 # format_04x d"
      by (simp_all add: escape_char_u)
    moreover have "reread (c # d # cs) = join_surrogates c d # reread cs"
      using True by simp
    moreover note 1(1) [OF True]
    ultimately show ?thesis
      using True by (simp add: scanstring_u_pair)
  next
    case False
    then have "0xd800 \<le> c \<and> c \<le> 0xdbff \<longrightarrow>
        nocombine (escape_char d @ concat (map escape_char cs) @ 34 # rest)"
      by (auto intro: nocombine_escape)
    then have "scanstring (escape_char c @ escape_char d @ concat (map escape_char cs) @ 34 # rest) =
        cons_char (astral_image c) (scanstring (escape_char d @ concat (map escape_char cs) @ 34 # rest))"
      by (rule escape_char_step)
    moreover have "reread (c # d # cs) = astral_image c # reread (d # cs)"
      using False by (simp only: reread.simps if_False)
    moreover note 1(2) [OF False]
    ultimately show ?thesis by simp
  qed
next
  case (2 c)
  have "scanstring (escape_char c @ 34 # rest) = cons_char (astral_image c) (scanstring (34 # rest))"
    by (rule escape_char_step) (simp add: nocombine_quote)
  then show ?case by (simp add: scanstring.simps)
next
  case 3
  show ?case by (simp add: scanstring.simps)
qed

lemma reread_id:
  "wf_str s \<Longrightarrow> no_surrogate_pair s \<Longrightarrow> reread s = s"
proof (induction s rule: reread.induct)
  case (1 c d cs)
  then show ?case
    by (auto simp: wf_str_def astral_image_def join_surrogates_inverse)
next
  case (2 c)
  then show ?case by (auto simp: wf_str_def astral_image_def join_surrogates_inverse)
next
  case 3
  show ?case by simp
qed

section \<open>Parsing the serialized response\<close>

lemmas scan_simps = scan_once.simps JSONObject.simps object_loop.simps JSONArray.simps array_loop.simps

declare scan_simps [simp del]

lemma skip_ws_nonws: "\<not> is_ws c \<Longrightarrow> skip_ws (c # s) = c # s"
  by (simp add: skip_ws_def)

lemma skip_ws_indent: "skip_ws (10 # 32 # 32 # 34 # s) = 34 # s"
  by (simp add: skip_ws_def is_ws_def)

lemma skip_ws_newline_brace: "skip_ws (10 # 125 # s) = 125 # s"
  by (simp add: skip_ws_def is_ws_def)

lemma skip_ws_blank_quote: "skip_ws (32 # 34 # s) = 34 # s"
  by (simp add: skip_ws_def is_ws_def)

lemma scan_once_string:
  "scan_once n (34 # concat (map escape_char v) @ 34 # R) = Inr (JString (reread v), R)"
  by (simp add: scan_once.simps scanstring_escaped)

lemma encode_basestring_ascii_Cons:
  "encode_basestring_ascii s @ R = 34 # concat (map escape_char s) @ 34 # R"
  by (simp add: encode_basestring_ascii_def)

lemma object_loop_more:
  "object_loop (Suc n) pairs
     (concat (map escape_char key) @ 34 # 58 # 32 # encode_basestring_ascii val @
      44 # 10 # 32 # 32 # 34 # R) =
   object_loop n (pairs @ [(reread key, JString (reread val))]) R"
  by (simp add: object_loop.simps scanstring_escaped encode_basestring_ascii_Cons
        skip_ws_nonws is_ws_def skip_ws_blank_quote skip_ws_indent scan_once_string)

lemma object_loop_last:
  "object_loop (Suc n) pairs
     (concat (map escape_char key) @ 34 # 58 # 32 # encode_basestring_ascii val @
      10 # 125 # R) =
   Inr (JObject (dict_of_pairs (pairs @ [(reread key, JString (reread val))])), R)"
  by (simp add: object_loop.simps scanstring_escaped encode_basestring_ascii_Cons
        skip_ws_nonws is_ws_def skip_ws_blank_quote skip_ws_newline_brace scan_once_string)

lemma iterencode_dict_3:
  "iterencode_dict [(k1, v1), (k2, v2), (k3, v3)] =
     123 # 10 # 32 # 32 # 34 # concat (map escape_char k1) @ 34 # 58 # 32 #
       encode_basestring_ascii v1 @
     44 # 10 # 32 # 32 # 34 # concat (map escape_char k2) @ 34 # 58 # 32 #
       encode_basestring_ascii v2 @
     44 # 10 # 32 # 32 # 34 # concat (map escape_char k3) @ 34 # 58 # 32 #
       encode_basestring_ascii v3 @ [10, 125]"
  by (simp add: iterencode_dict_def encode_basestring_ascii_def)

lemma object_loop_3:
  "object_loop (Suc (Suc (Suc (Suc n)))) []
     (concat (map escape_char k1) @ 34 # 58 # 32 # encode_basestring_ascii v1 @
      44 # 10 # 32 # 32 # 34 #
      concat (map escape_char k2) @ 34 # 58 # 32 # encode_basestring_ascii v2 @
      44 # 10 # 32 # 32 # 34 #
      concat (map escape_char k3) @ 34 # 58 # 32 # encode_basestring_ascii v3 @
      10 # 125 # []) =
   Inr (JObject (dict_of_pairs
     [(reread k1, JString (reread v1)), (reread k2, JString (reread v2)),
      (reread k3, JString (reread v3))]), [])"
  by (simp only: object_loop_more object_loop_last append_Nil append_Cons)

lemma scan_once_object:
  "scan_once m (skip_ws (123 # 10 # 32 # 32 # 34 # T)) = object_loop m [] T"
  by (simp add: scan_once.simps JSONObject.simps skip_ws_nonws is_ws_def skip_ws_indent)

lemma json_loads_whole:
  assumes "scan_once (Suc (length s)) (skip_ws s) = Inr (obj, [])" "take 1 s \<noteq> [0xfeff]"
  shows "json_loads s = Inr obj"
  using assms by (simp add: json_loads_def skip_ws_def)

lemma length_ge_3: "length (a # b # c # s) = Suc (Suc (Suc (length s)))"
  by simp

lemma json_loads_dict_3:
  "json_loads (iterencode_dict [(k1, v1), (k2, v2), (k3, v3)]) =
     Inr (JObject (dict_of_pairs
       [(reread k1, JString (reread v1)), (reread k2, JString (reread v2)),
        (reread k3, JString (reread v3))]))"
proof (rule json_loads_whole)
  show "take 1 (iterencode_dict [(k1, v1), (k2, v2), (k3, v3)]) \<noteq> [0xfeff]"
    by (simp add: iterencode_dict_3)
  show "scan_once (Suc (length (iterencode_dict [(k1, v1), (k2, v2), (k3, v3)])))
      (skip_ws (iterencode_dict [(k1, v1), (k2, v2), (k3, v3)])) =
    Inr (JObject (dict_of_pairs
       [(reread k1, JString (reread v1)), (reread k2, JString (reread v2)),
        (reread k3, JString (reread v3))]), [])"
    unfolding iterencode_dict_3 length_ge_3 scan_once_object
    by (rule object_loop_3)
qed

lemma reread_keys:
  "reread (ascii ''answer'') = ascii ''answer''"
  "reread (ascii ''poem'') = ascii ''poem''"
  "reread (ascii ''followup_question'') = ascii ''followup_question''"
  by (simp_all add: ascii_def astral_image_def)

lemma dict_of_pairs_3:
  "k1 \<noteq> k2 \<Longrightarrow> k1 \<noteq> k3 \<Longrightarrow> k2 \<noteq> k3 \<Longrightarrow>
   dict_of_pairs [(k1, x), (k2, y), (k3, z)] = [(k1, x), (k2, y), (k3, z)]"
  by (simp add: dict_of_pairs_def)

lemma json_loads_to_json_string:
  "json_loads (to_json_string r) =
     Inr (JObject [(ascii ''answer'', JString (reread (answer r))),
                   (ascii ''poem'', JString (reread (poem r))),
                   (ascii ''followup_question'', JString (reread (followup_question r)))])"
proof -
  have "dict_of_pairs [(ascii ''answer'', JString (reread (answer r))),
                   (ascii ''poem'', JString (reread (poem r))),
                   (ascii ''followup_question'', JString (reread (followup_question r)))] =
        [(ascii ''answer'', JString (reread (answer r))),
                   (ascii ''poem'', JString (reread (poem r))),
                   (ascii ''followup_question'', JString (reread (followup_question r)))]"
    by (rule dict_of_pairs_3) (simp_all add: ascii_def)
  then show ?thesis
    by (simp only: to_json_string_def dict_def json_loads_dict_3 reread_keys)
qed


section \<open>The fuel of the parser\<close>

text \<open>
  Every scan that returns a value has consumed at least one character, so the fuel that
  \<open>json_loads\<close> gives, one unit more than the text has characters, is never used up:
  the bound on the recursion changes no result.
\<close>

lemma cons_char_progress:
  "cons_char c x = Inr (t, r) \<Longrightarrow> \<exists>t'. x = Inr (t', r)"
  by (auto simp: cons_char_def split: sum.splits)

lemma scanstring_step:
  assumes "scanstring (c # s) = Inr (t, r)"
  shows "r = s \<or> (\<exists>t'. scanstring s = Inr (t', r)) \<or> (\<exists>t'. scanstring (drop 1 s) = Inr (t', r))
      \<or> (\<exists>t'. scanstring (drop 5 s) = Inr (t', r)) \<or> (\<exists>t'. scanstring (drop 11 s) = Inr (t', r))"
  using assms
  by (subst (asm) scanstring.simps)
     (auto split: if_splits list.splits option.splits sum.splits dest!: cons_char_progress)

lemma scanstring_progress:
  "scanstring s = Inr (t, r) \<Longrightarrow> length r < length s"
proof (induction s arbitrary: t r rule: length_induct)
  case (1 s)
  show ?case
  proof (cases s)
    case Nil
    with 1(2) show ?thesis by (simp add: scanstring.simps)
  next
    case (Cons c s0)
    with 1(2) scanstring_step [of c s0 t r]
    consider "r = s0" | n t' where "scanstring (drop n s0) = Inr (t', r)"
      by (metis drop0)
    then show ?thesis
    proof cases
      case 1
      with Cons show ?thesis by simp
    next
      case 2
      have "length (drop n s0) < length s" using Cons by simp
      with 1(1) 2 have "length r < length (drop n s0)" by blast
      with Cons show ?thesis by simp
    qed
  qed
qed

lemma length_skip_ws: "length (skip_ws s) \<le> length s"
  by (simp add: skip_ws_def length_dropWhile_le)

lemma skip_ws_Cons_length: "skip_ws s = c # r \<Longrightarrow> length r < length s"
  using length_skip_ws [of s] by simp

lemma match_integer_progress: "match_integer s = Some (i, r) \<Longrightarrow> length r < length s"
proof -
  assume a: "match_integer s = Some (i, r)"
  let ?sign = "takeWhile (\<lambda>c. c = 45) (take 1 s)"
  obtain c r0 where d: "drop (length ?sign) s = c # r0" and r: "length r \<le> length r0"
    using a by (auto simp: match_integer_def Let_def length_dropWhile_le split: list.splits if_splits)
  have "length (drop (length ?sign) s) \<le> length s" by simp
  with d r show ?thesis by simp
qed

lemma match_frac_length: "match_frac s = (f, r) \<Longrightarrow> length r \<le> length s"
  by (auto simp: match_frac_def split: list.splits if_splits intro: le_trans [OF length_dropWhile_le])

lemma match_exp_length: "match_exp s = (e, r) \<Longrightarrow> length r \<le> length s"
proof -
  assume a: "match_exp s = (e, r)"
  show ?thesis
  proof (cases "r = s")
    case True
    then show ?thesis by simp
  next
    case False
    with a obtain c r0 where s: "s = c # r0" by (cases s) (auto simp: match_exp_def)
    let ?sign = "takeWhile (\<lambda>c. c = 45 \<or> c = 43) (take 1 r0)"
    from a s False obtain d r2 where "drop (length ?sign) r0 = d # r2" "r = dropWhile is_digit r2"
      by (auto simp: match_exp_def Let_def split: list.splits if_splits)
    moreover have "length (drop (length ?sign) r0) \<le> length r0" by simp
    moreover have "length (dropWhile is_digit r2) \<le> length r2" by (rule length_dropWhile_le)
    ultimately show ?thesis using s by simp
  qed
qed

lemma match_number_progress: "match_number s = Some (lit, r) \<Longrightarrow> length r < length s"
proof -
  assume a: "match_number s = Some (lit, r)"
  then obtain i s1 where i: "match_integer s = Some (i, s1)"
    by (auto simp: match_number_def split: option.splits)
  obtain f s2 where f: "match_frac s1 = (f, s2)" by (cases "match_frac s1")
  obtain e s3 where e: "match_exp s2 = (e, s3)" by (cases "match_exp s2")
  from a i f e have "r = s3" by (simp add: match_number_def)
  with match_integer_progress [OF i] match_frac_length [OF f] match_exp_length [OF e]
  show ?thesis by simp
qed

lemma cons_char_error: "cons_char c x = Inl e \<Longrightarrow> x = Inl e"
  by (auto simp: cons_char_def split: sum.splits)

lemma decode_uXXXX_error: "decode_uXXXX s = Inl e \<Longrightarrow> e = JSONDecodeError"
  by (auto simp: decode_uXXXX_def Let_def split: if_splits option.splits)

lemma scanstring_error_step:
  assumes "scanstring (c # s) = Inl e"
  shows "e = JSONDecodeError \<or> scanstring s = Inl e \<or> scanstring (drop 1 s) = Inl e
      \<or> scanstring (drop 5 s) = Inl e \<or> scanstring (drop 11 s) = Inl e"
  using assms
  by (subst (asm) scanstring.simps)
     (auto split: if_splits list.splits option.splits sum.splits
           dest!: cons_char_error decode_uXXXX_error)

lemma scanstring_error: "scanstring s = Inl e \<Longrightarrow> e = JSONDecodeError"
proof (induction s rule: length_induct)
  case (1 s)
  show ?case
  proof (cases s)
    case Nil
    with 1(2) show ?thesis by (simp add: scanstring.simps)
  next
    case (Cons c s0)
    with 1(2) scanstring_error_step [of c s0 e]
    consider "e = JSONDecodeError" | n where "scanstring (drop n s0) = Inl e"
      by (metis drop0)
    then show ?thesis
    proof cases
      case 1
      then show ?thesis .
    next
      case 2
      have "length (drop n s0) < length s" using Cons by simp
      with 1(1) 2 show ?thesis by blast
    qed
  qed
qed

lemma literal_progress:
  assumes "s \<noteq> []"
  shows "progress
     (if b1 then Inr (JNull, drop 4 s)
      else if b2 then Inr (JBool True, drop 4 s)
      else if b3 then Inr (JBool False, drop 5 s)
      else
        (case match_number s of
           Some (literal, r) \<Rightarrow> Inr (JNumber literal, r)
         | None \<Rightarrow>
             if b4 then Inr (x4, drop 3 s)
             else if b5 then Inr (x5, drop 8 s)
             else if b6 then Inr (x6, drop 9 s)
             else Inl JSONDecodeError)) s"
  using assms by (auto simp: progress_def split: option.splits dest: match_number_progress)

lemma literal_fuelled:
  "fuelled
     (if b1 then Inr (JNull, s1)
      else if b2 then Inr (JBool True, s2)
      else if b3 then Inr (JBool False, s3)
      else
        (case match_number s of
           Some (literal, r) \<Rightarrow> Inr (JNumber literal, r)
         | None \<Rightarrow>
             if b4 then Inr (x4, s4)
             else if b5 then Inr (x5, s5)
             else if b6 then Inr (x6, s6)
             else Inl JSONDecodeError))"
  by (auto simp: fuelled_def split: option.splits)

lemma scan_once_Cons:
  "scan_once n (c # rest) =
     (if c = 34 then
        (case scanstring rest of Inl e \<Rightarrow> Inl e | Inr (t, r) \<Rightarrow> Inr (JString t, r))
      else if c = 123 then JSONObject n rest
      else if c = 91 then JSONArray n rest
      else if c = 110 \<and> take 4 (c # rest) = ascii ''null'' then Inr (JNull, drop 4 (c # rest))
      else if c = 116 \<and> take 4 (c # rest) = ascii ''true'' then Inr (JBool True, drop 4 (c # rest))
      else if c = 102 \<and> take 5 (c # rest) = ascii ''false'' then Inr (JBool False, drop 5 (c # rest))
      else
        (case match_number (c # rest) of
           Some (literal, r) \<Rightarrow> Inr (JNumber literal, r)
         | None \<Rightarrow>
             if c = 78 \<and> take 3 (c # rest) = ascii ''NaN''
             then Inr (JNumber (ascii ''NaN''), drop 3 (c # rest))
             else if c = 73 \<and> take 8 (c # rest) = ascii ''Infinity''
             then Inr (JNumber (ascii ''Infinity''), drop 8 (c # rest))
             else if c = 45 \<and> take 9 (c # rest) = ascii ''-Infinity''
             then Inr (JNumber (ascii ''-Infinity''), drop 9 (c # rest))
             else Inl JSONDecodeError))"
  by (subst scan_once.simps) (simp only: list.case)

lemma progress_if:
  "(b \<Longrightarrow> progress x s) \<Longrightarrow> (\<not> b \<Longrightarrow> progress y s) \<Longrightarrow> progress (if b then x else y) s"
  by simp

lemma fuelled_if:
  "(b \<Longrightarrow> fuelled x) \<Longrightarrow> (\<not> b \<Longrightarrow> fuelled y) \<Longrightarrow> fuelled (if b then x else y)"
  by simp

lemma scan_once_ok:
  assumes obj: "\<And>s. progress (JSONObject n s) s \<and> (length s < n \<longrightarrow> fuelled (JSONObject n s))"
    and arr: "\<And>s. progress (JSONArray n s) s \<and> (length s < n \<longrightarrow> fuelled (JSONArray n s))"
  shows "progress (scan_once n s) s \<and> (length s \<le> n \<longrightarrow> fuelled (scan_once n s))"
proof (cases s)
  case Nil
  then show ?thesis by (simp add: scan_once.simps progress_def fuelled_def)
next
  case (Cons c rest)
  have str: "progress (case scanstring rest of Inl e \<Rightarrow> Inl e | Inr (t, r) \<Rightarrow> Inr (JString t, r)) (c # rest)"
    by (auto simp: progress_def split: sum.splits dest!: scanstring_progress)
  have strf: "fuelled (case scanstring rest of Inl e \<Rightarrow> Inl e | Inr (t, r) \<Rightarrow> Inr (JString t, r))"
    by (auto simp: fuelled_def split: sum.splits dest!: scanstring_error)
  have o: "progress (JSONObject n rest) (c # rest)"
    using obj [of rest] by (auto simp: progress_def)
  have a: "progress (JSONArray n rest) (c # rest)"
    using arr [of rest] by (auto simp: progress_def)
  have p: "progress (scan_once n (c # rest)) (c # rest)"
    unfolding scan_once_Cons
    by (rule progress_if, rule str, rule progress_if, rule o, rule progress_if, rule a,
        rule literal_progress) simp
  have f: "fuelled (scan_once n (c # rest))" if "length (c # rest) \<le> n"
  proof -
    from that have "length rest < n" by simp
    with obj [of rest] arr [of rest] have of: "fuelled (JSONObject n rest)" "fuelled (JSONArray n rest)"
      by simp_all
    show ?thesis
      unfolding scan_once_Cons
      by (rule fuelled_if, rule strf, rule fuelled_if, rule of(1), rule fuelled_if, rule of(2),
          rule literal_fuelled)
  qed
  from p f Cons show ?thesis by simp
qed

lemma JSONObject_ok:
  assumes loop: "\<And>pairs s. progress (object_loop n pairs s) s \<and>
      (length s < n \<longrightarrow> fuelled (object_loop n pairs s))"
  shows "progress (JSONObject n s) s \<and> (length s < n \<longrightarrow> fuelled (JSONObject n s))"
proof (cases "skip_ws s")
  case Nil
  then show ?thesis by (simp add: JSONObject.simps progress_def fuelled_def)
next
  case (Cons c rest)
  then have l: "length rest < length s" by (rule skip_ws_Cons_length)
  with loop [of "[]" rest] Cons show ?thesis
    by (auto simp: JSONObject.simps progress_def fuelled_def)
qed

lemma JSONArray_ok:
  assumes loop: "\<And>vals s. progress (array_loop n vals s) s \<and>
      (length s < n \<longrightarrow> fuelled (array_loop n vals s))"
  shows "progress (JSONArray n s) s \<and> (length s < n \<longrightarrow> fuelled (JSONArray n s))"
proof (cases "take 1 (skip_ws s) = [93]")
  case True
  then have "skip_ws s \<noteq> []" by auto
  then have "length (drop 1 (skip_ws s)) < length s"
    using length_skip_ws [of s] by (cases "skip_ws s") simp_all
  with True show ?thesis by (simp add: JSONArray.simps progress_def fuelled_def)
next
  case False
  with loop [of "[]" "skip_ws s"] length_skip_ws [of s] show ?thesis
    by (auto simp: JSONArray.simps progress_def fuelled_def)
qed

lemma object_loop_Suc_Inr:
  assumes "object_loop (Suc n) pairs s = Inr (v, r)"
  obtains key s1 s2 val s3 c s4 where
    "scanstring s = Inr (key, s1)" "skip_ws s1 = 58 # s2"
    "scan_once n (skip_ws s2) = Inr (val, s3)" "skip_ws s3 = c # s4"
    "r = s4 \<or> (\<exists>s5. skip_ws s4 = 34 # s5 \<and> object_loop n (pairs @ [(key, val)]) s5 = Inr (v, r))"
  using assms
  by (auto simp: object_loop.simps split: sum.splits list.splits if_splits)

lemma object_loop_Suc_fuel:
  assumes "object_loop (Suc n) pairs s = Inl Out_of_fuel"
  obtains key s1 s2 where
    "scanstring s = Inr (key, s1)" "skip_ws s1 = 58 # s2"
    "scan_once n (skip_ws s2) = Inl Out_of_fuel \<or>
     (\<exists>val s3 c s4 s5. scan_once n (skip_ws s2) = Inr (val, s3) \<and> skip_ws s3 = c # s4 \<and>
        skip_ws s4 = 34 # s5 \<and> object_loop n (pairs @ [(key, val)]) s5 = Inl Out_of_fuel)"
  using assms
  by (auto simp: object_loop.simps split: sum.splits list.splits if_splits
           dest: scanstring_error)

lemma array_loop_Suc_Inr:
  assumes "array_loop (Suc n) vals s = Inr (v, r)"
  obtains val s1 c s2 where
    "scan_once n s = Inr (val, s1)" "skip_ws s1 = c # s2"
    "r = s2 \<or> array_loop n (vals @ [val]) (skip_ws s2) = Inr (v, r)"
  using assms
  by (auto simp: array_loop.simps split: sum.splits list.splits if_splits)

lemma array_loop_Suc_fuel:
  assumes "array_loop (Suc n) vals s = Inl Out_of_fuel"
  shows "scan_once n s = Inl Out_of_fuel \<or>
     (\<exists>val s1 c s2. scan_once n s = Inr (val, s1) \<and> skip_ws s1 = c # s2 \<and>
        array_loop n (vals @ [val]) (skip_ws s2) = Inl Out_of_fuel)"
  using assms
  by (auto simp: array_loop.simps split: sum.splits list.splits if_splits)

lemma object_loop_Suc_ok:
  assumes sc: "\<And>s. progress (scan_once n s) s \<and> (length s \<le> n \<longrightarrow> fuelled (scan_once n s))"
    and loop: "\<And>pairs s. progress (object_loop n pairs s) s \<and>
      (length s < n \<longrightarrow> fuelled (object_loop n pairs s))"
  shows "progress (object_loop (Suc n) pairs s) s \<and>
      (length s < Suc n \<longrightarrow> fuelled (object_loop (Suc n) pairs s))"
proof
  show "progress (object_loop (Suc n) pairs s) s"
    unfolding progress_def
  proof (intro allI impI)
    fix v r assume "object_loop (Suc n) pairs s = Inr (v, r)"
    then obtain key s1 s2 val s3 c s4 where
      a: "scanstring s = Inr (key, s1)" "skip_ws s1 = 58 # s2"
         "scan_once n (skip_ws s2) = Inr (val, s3)" "skip_ws s3 = c # s4"
         "r = s4 \<or> (\<exists>s5. skip_ws s4 = 34 # s5 \<and> object_loop n (pairs @ [(key, val)]) s5 = Inr (v, r))"
      by (rule object_loop_Suc_Inr)
    have l: "length s1 < length s" "length s2 < length s1" "length s3 < length (skip_ws s2)"
        "length s4 < length s3"
      using a sc [of "skip_ws s2"]
      by (auto simp: progress_def dest: scanstring_progress skip_ws_Cons_length)
    from a(5) have "length r \<le> length s4"
    proof
      assume "r = s4" then show ?thesis by simp
    next
      assume "\<exists>s5. skip_ws s4 = 34 # s5 \<and> object_loop n (pairs @ [(key, val)]) s5 = Inr (v, r)"
      then obtain s5 where "skip_ws s4 = 34 # s5" "object_loop n (pairs @ [(key, val)]) s5 = Inr (v, r)"
        by blast
      with loop [of "pairs @ [(key, val)]" s5] have "length s5 < length s4" "length r < length s5"
        by (auto simp: progress_def dest: skip_ws_Cons_length)
      then show ?thesis by simp
    qed
    with l length_skip_ws [of s2] show "length r < length s" by simp
  qed
  show "length s < Suc n \<longrightarrow> fuelled (object_loop (Suc n) pairs s)"
    unfolding fuelled_def
  proof (intro impI notI)
    assume n: "length s < Suc n" and ol: "object_loop (Suc n) pairs s = Inl Out_of_fuel"
    from ol obtain key s1 s2 where
      a: "scanstring s = Inr (key, s1)" "skip_ws s1 = 58 # s2"
         "scan_once n (skip_ws s2) = Inl Out_of_fuel \<or>
          (\<exists>val s3 c s4 s5. scan_once n (skip_ws s2) = Inr (val, s3) \<and> skip_ws s3 = c # s4 \<and>
            skip_ws s4 = 34 # s5 \<and> object_loop n (pairs @ [(key, val)]) s5 = Inl Out_of_fuel)"
      by (rule object_loop_Suc_fuel)
    have l: "length s1 < length s" "length s2 < length s1"
      using a by (auto dest: scanstring_progress skip_ws_Cons_length)
    with n length_skip_ws [of s2] have l2: "length (skip_ws s2) \<le> n" by simp
    from a(3) show False
    proof
      assume "scan_once n (skip_ws s2) = Inl Out_of_fuel"
      with sc [of "skip_ws s2"] l2 show False by (simp add: fuelled_def)
    next
      assume "\<exists>val s3 c s4 s5. scan_once n (skip_ws s2) = Inr (val, s3) \<and> skip_ws s3 = c # s4 \<and>
            skip_ws s4 = 34 # s5 \<and> object_loop n (pairs @ [(key, val)]) s5 = Inl Out_of_fuel"
      then obtain val s3 c s4 s5 where
        b: "scan_once n (skip_ws s2) = Inr (val, s3)" "skip_ws s3 = c # s4"
           "skip_ws s4 = 34 # s5" "object_loop n (pairs @ [(key, val)]) s5 = Inl Out_of_fuel"
        by blast
      have "length s3 < length (skip_ws s2)" "length s4 < length s3" "length s5 < length s4"
        using b sc [of "skip_ws s2"] by (auto simp: progress_def dest: skip_ws_Cons_length)
      with l2 have "length s5 < n" by simp
      with loop [of "pairs @ [(key, val)]" s5] b(4) show False by (simp add: fuelled_def)
    qed
  qed
qed

lemma array_loop_Suc_ok:
  assumes sc: "\<And>s. progress (scan_once n s) s \<and> (length s \<le> n \<longrightarrow> fuelled (scan_once n s))"
    and loop: "\<And>vals s. progress (array_loop n vals s) s \<and>
      (length s < n \<longrightarrow> fuelled (array_loop n vals s))"
  shows "progress (array_loop (Suc n) vals s) s \<and>
      (length s < Suc n \<longrightarrow> fuelled (array_loop (Suc n) vals s))"
proof
  show "progress (array_loop (Suc n) vals s) s"
    unfolding progress_def
  proof (intro allI impI)
    fix v r assume "array_loop (Suc n) vals s = Inr (v, r)"
    then obtain val s1 c s2 where
      a: "scan_once n s = Inr (val, s1)" "skip_ws s1 = c # s2"
         "r = s2 \<or> array_loop n (vals @ [val]) (skip_ws s2) = Inr (v, r)"
      by (rule array_loop_Suc_Inr)
    have l: "length s1 < length s" "length s2 < length s1"
      using a sc [of s] by (auto simp: progress_def dest: skip_ws_Cons_length)
    from a(3) have "length r \<le> length s2"
    proof
      assume "r = s2" then show ?thesis by simp
    next
      assume "array_loop n (vals @ [val]) (skip_ws s2) = Inr (v, r)"
      with loop [of "vals @ [val]" "skip_ws s2"] length_skip_ws [of s2] show ?thesis
        by (auto simp: progress_def)
    qed
    with l show "length r < length s" by simp
  qed
  show "length s < Suc n \<longrightarrow> fuelled (array_loop (Suc n) vals s)"
    unfolding fuelled_def
  proof (intro impI notI)
    assume n: "length s < Suc n" and al: "array_loop (Suc n) vals s = Inl Out_of_fuel"
    from al have "scan_once n s = Inl Out_of_fuel \<or>
       (\<exists>val s1 c s2. scan_once n s = Inr (val, s1) \<and> skip_ws s1 = c # s2 \<and>
          array_loop n (vals @ [val]) (skip_ws s2) = Inl Out_of_fuel)"
      by (intro array_loop_Suc_fuel)
    then show False
    proof
      assume "scan_once n s = Inl Out_of_fuel"
      with sc [of s] n show False by (simp add: fuelled_def)
    next
      assume "\<exists>val s1 c s2. scan_once n s = Inr (val, s1) \<and> skip_ws s1 = c # s2 \<and>
          array_loop n (vals @ [val]) (skip_ws s2) = Inl Out_of_fuel"
      then obtain val s1 c s2 where
        b: "scan_once n s = Inr (val, s1)" "skip_ws s1 = c # s2"
           "array_loop n (vals @ [val]) (skip_ws s2) = Inl Out_of_fuel"
        by blast
      have "length s1 < length s" "length s2 < length s1"
        using b sc [of s] by (auto simp: progress_def dest: skip_ws_Cons_length)
      with n length_skip_ws [of s2] have "length (skip_ws s2) < n" by simp
      with loop [of "vals @ [val]" "skip_ws s2"] b(3) show False by (simp add: fuelled_def)
    qed
  qed
qed

lemma loops_ok:
  "(\<forall>pairs s. progress (object_loop n pairs s) s \<and>
       (length s < n \<longrightarrow> fuelled (object_loop n pairs s))) \<and>
   (\<forall>vals s. progress (array_loop n vals s) s \<and>
       (length s < n \<longrightarrow> fuelled (array_loop n vals s)))"
proof (induction n)
  case 0
  show ?case by (simp add: object_loop.simps array_loop.simps progress_def)
next
  case (Suc n)
  have sc: "\<And>s. progress (scan_once n s) s \<and> (length s \<le> n \<longrightarrow> fuelled (scan_once n s))"
    using Suc by (intro scan_once_ok JSONObject_ok JSONArray_ok) blast+
  show ?case
    using Suc by (intro conjI allI object_loop_Suc_ok array_loop_Suc_ok sc) blast+
qed

lemma scan_once_total:
  "progress (scan_once n s) s \<and> (length s \<le> n \<longrightarrow> fuelled (scan_once n s))"
  using loops_ok [of n] by (intro scan_once_ok JSONObject_ok JSONArray_ok) blast+

lemma json_loads_fuel: "json_loads s \<noteq> Inl Out_of_fuel"
proof -
  have "length (skip_ws s) \<le> Suc (length s)"
    using length_skip_ws [of s] by simp
  with scan_once_total [of "Suc (length s)" "skip_ws s"]
  have "scan_once (Suc (length s)) (skip_ws s) \<noteq> Inl Out_of_fuel"
    by (simp add: fuelled_def)
  then show ?thesis
    by (auto simp: json_loads_def split: sum.splits)
qed

section \<open>The response of the chain\<close>

text \<open>
  C1. For every query on which the chain succeeds, the text it returns parses, with
  \<open>json.loads\<close>, to an object with exactly the three keys \<open>answer\<close>, \<open>poem\<close> and
  \<open>followup_question\<close>, in this order, and the value of each is a string.
\<close>

theorem C1_three_string_keys:
  assumes "fst (rag_chain retriever llm query w) = Inr out"
  shows "\<exists>a p f. json_loads out =
     Inr (JObject [(ascii ''answer'', JString a), (ascii ''poem'', JString p),
                   (ascii ''followup_question'', JString f)])"
proof -
  from assms obtain response where "out = to_json_string response"
    by (auto simp: rag_chain_prompt split: prod.splits sum.splits option.splits)
  then show ?thesis
    by (simp only: json_loads_to_json_string) blast
qed

theorem C1_three_string_keys_witness:
  "fst (rag_chain (\<lambda>q w. (Inr [\<lparr>page_content = ascii ''Agents plan.'', metadata = []\<rparr>]
                                 :: string + document list, w))
                  (\<lambda>ms w. (Inr (Some \<lparr>answer = ascii ''An agent plans.'', poem = [0x1f600],
                                        followup_question = ascii ''How?''\<rparr>), w))
                  (ascii ''What is an AGENT?'') ()) =
     Inr (to_json_string \<lparr>answer = ascii ''An agent plans.'', poem = [0x1f600],
                          followup_question = ascii ''How?''\<rparr>)
   \<and> (\<exists>a p f. json_loads (to_json_string \<lparr>answer = ascii ''An agent plans.'', poem = [0x1f600],
                          followup_question = ascii ''How?''\<rparr>) =
       Inr (JObject [(ascii ''answer'', JString a), (ascii ''poem'', JString p),
                     (ascii ''followup_question'', JString f)]))"
proof -
  let ?ret = "\<lambda>(q::str) (w::unit). (Inr [\<lparr>page_content = ascii ''Agents plan.'', metadata = []\<rparr>] :: string + document list, w)"
  let ?r = "\<lparr>answer = ascii ''An agent plans.'', poem = [0x1f600], followup_question = ascii ''How?''\<rparr>"
  let ?llm = "\<lambda>(ms::message list) (w::unit).
    (Inr (Some ?r) :: string + ResponseFormatter option, w)"
  have run: "fst (rag_chain ?ret ?llm (ascii ''What is an AGENT?'') ()) = Inr (to_json_string ?r)"
    by (simp add: rag_chain_prompt)
  from C1_three_string_keys [OF run] run show ?thesis by blast
qed

text \<open>
  C10, as stated, fails: a Python string may hold a high surrogate followed at once by a
  low surrogate, as two code points. Both are written as \<open>\uXXXX\<close> escapes, and the
  decoder reads the two escapes as one code point, so the parsed value differs from the
  field.
\<close>

theorem C10_surrogate_pair_counterexample:
  "wf_str [0xd83d, 0xde00]
   \<and> json_loads (to_json_string \<lparr>answer = [0xd83d, 0xde00], poem = [], followup_question = []\<rparr>) =
       Inr (JObject [(ascii ''answer'', JString [0x1f600]), (ascii ''poem'', JString []),
                     (ascii ''followup_question'', JString [])])
   \<and> json_loads (to_json_string \<lparr>answer = [0xd83d, 0xde00], poem = [], followup_question = []\<rparr>) \<noteq>
       Inr (JObject (map (\<lambda>(k, v). (k, JString v))
             (dict \<lparr>answer = [0xd83d, 0xde00], poem = [], followup_question = []\<rparr>)))"
  by (simp add: json_loads_to_json_string dict_def wf_str_def join_surrogates_def)

text \<open>
  C10, amended. For every response whose three strings hold no high surrogate followed
  at once by a low surrogate, parsing the text of \<open>to_json_string\<close> succeeds and gives
  the dictionary of the fields: the same keys in the same order, each with the string
  of its field.
\<close>

theorem C10_round_trip:
  assumes "wf_str (answer r)" "wf_str (poem r)" "wf_str (followup_question r)"
    and "no_surrogate_pair (answer r)" "no_surrogate_pair (poem r)"
        "no_surrogate_pair (followup_question r)"
  shows "json_loads (to_json_string r) = Inr (JObject (map (\<lambda>(k, v). (k, JString v)) (dict r)))"
  using assms by (simp add: json_loads_to_json_string dict_def reread_id)

theorem C10_round_trip_witness:
  "wf_str (ascii ''An \"agent\"'' @ [10, 0xe9, 0x1f600]) \<and> wf_str [0xd83d] \<and> wf_str []
   \<and> no_surrogate_pair (ascii ''An \"agent\"'' @ [10, 0xe9, 0x1f600])
   \<and> no_surrogate_pair [0xd83d] \<and> no_surrogate_pair []
   \<and> json_loads (to_json_string
         \<lparr>answer = ascii ''An \"agent\"'' @ [10, 0xe9, 0x1f600], poem = [0xd83d],
          followup_question = []\<rparr>) =
       Inr (JObject [(ascii ''answer'', JString (ascii ''An \"agent\"'' @ [10, 0xe9, 0x1f600])),
                     (ascii ''poem'', JString [0xd83d]),
                     (ascii ''followup_question'', JString [])])"
  using C10_round_trip [of "\<lparr>answer = ascii ''An \"agent\"'' @ [10, 0xe9, 0x1f600], poem = [0xd83d],
          followup_question = []\<rparr>"]
  by (simp add: wf_str_def ascii_def dict_def)


end
